theory Spec2Isabelle
  imports Complex_Main "HOL-Library.Word" "HOL-Library.Signed_Division"
    "HOL-Library.Monad_Syntax"
begin

unbundle bit_operations_syntax

section \<open>The board: output lines, time counters and the log of what was driven\<close>

text \<open>
  The firmware in \<^verbatim>\<open>main.cpp\<close> owns three output lines (\<^verbatim>\<open>latchPin\<close>,
  \<^verbatim>\<open>clockPin\<close>, \<^verbatim>\<open>dataPin\<close>) and two global counters (\<^verbatim>\<open>seconds\<close>,
  \<^verbatim>\<open>minutes\<close>). Everything the program does to the outside world is an assignment to
  one of the three lines or a call of \<^verbatim>\<open>ThisThread::sleep_for\<close>; the model records each of
  them, in program order, in the field \<open>trace\<close>, next to the current level of every line.

  A C++ \<^verbatim>\<open>int\<close> is modelled as a mathematical integer. Division and remainder are the
  truncating ones of C++ (\<open>sdiv\<close> and \<open>smod\<close>), and the three places where an \<^verbatim>\<open>int\<close>
  result could leave the 32-bit range (\<^verbatim>\<open>seconds++\<close>, \<^verbatim>\<open>minutes++\<close> and
  \<^verbatim>\<open>minutes * 100 + seconds\<close>) wrap around through \<open>wrap32\<close>, as the target does.
  A \<^verbatim>\<open>uint8_t\<close> is an \<open>8 word\<close>.
\<close>

datatype line = LatchLine | ClockLine | DataLine

datatype event = Write line bool | SleepMs nat

record board =
  latchPin :: bool
  clockPin :: bool
  dataPin :: bool
  seconds :: int
  minutes :: int
  trace :: "event list"

definition wrap32 :: "int \<Rightarrow> int" where
  "wrap32 x = (x + 2 ^ 31) mod 2 ^ 32 - 2 ^ 31"

text \<open>Assignment to a \<^verbatim>\<open>DigitalOut\<close>: the line takes the level and the write is logged.\<close>

definition set_latchPin :: "bool \<Rightarrow> board \<Rightarrow> board" where
  "set_latchPin v s = s\<lparr>latchPin := v, trace := trace s @ [Write LatchLine v]\<rparr>"

definition set_clockPin :: "bool \<Rightarrow> board \<Rightarrow> board" where
  "set_clockPin v s = s\<lparr>clockPin := v, trace := trace s @ [Write ClockLine v]\<rparr>"

definition set_dataPin :: "bool \<Rightarrow> board \<Rightarrow> board" where
  "set_dataPin v s = s\<lparr>dataPin := v, trace := trace s @ [Write DataLine v]\<rparr>"

text \<open>\<^verbatim>\<open>ThisThread::sleep_for(n ms)\<close>: nothing changes but the log.\<close>

definition sleep_for :: "nat \<Rightarrow> board \<Rightarrow> board" where
  "sleep_for ms s = s\<lparr>trace := trace s @ [SleepMs ms]\<rparr>"

text \<open>Reading a C array at an \<^verbatim>\<open>int\<close> index; outside the array the read is undefined
  behaviour, here \<open>None\<close>.\<close>

definition c_index :: "'a list \<Rightarrow> int \<Rightarrow> 'a option" where
  "c_index xs i = (if 0 \<le> i \<and> i < int (length xs) then Some (xs ! nat i) else None)"

section \<open>Constant tables\<close>

text \<open>\<^verbatim>\<open>static_cast<uint8_t>(~0x3F)\<close>: the complement is taken on \<^verbatim>\<open>int\<close> and the
  result is cut to eight bits.\<close>

definition digitPattern :: "8 word list" where
  "digitPattern =
     [word_of_int (NOT (0x3F :: int)),
      word_of_int (NOT (0x06 :: int)),
      word_of_int (NOT (0x5B :: int)),
      word_of_int (NOT (0x4F :: int)),
      word_of_int (NOT (0x66 :: int)),
      word_of_int (NOT (0x6D :: int)),
      word_of_int (NOT (0x7D :: int)),
      word_of_int (NOT (0x07 :: int)),
      word_of_int (NOT (0x7F :: int)),
      word_of_int (NOT (0x6F :: int))]"

definition digitPos :: "8 word list" where
  "digitPos = [0x01, 0x02, 0x04, 0x08]"

section \<open>Time base\<close>

text \<open>The state when \<^verbatim>\<open>main\<close> is entered: both counters hold their initialiser 0, the
  three \<^verbatim>\<open>DigitalOut\<close> lines are low, nothing has been driven yet.\<close>

definition init_board :: board where
  "init_board = \<lparr>latchPin = False, clockPin = False, dataPin = False,
                 seconds = 0, minutes = 0, trace = []\<rparr>"

text \<open>The statements of \<^verbatim>\<open>main\<close> before the loop: the three lines are written low. The
  pull-up configuration of the buttons changes nothing of the board, and attaching the
  ticker means that from here on the tick handler may run.\<close>

definition main_setup :: "board \<Rightarrow> board" where
  "main_setup s = set_dataPin False (set_clockPin False (set_latchPin False s))"

definition updateTime :: "board \<Rightarrow> board" where
  "updateTime s =
     (let a = s\<lparr>seconds := wrap32 (seconds s + 1)\<rparr> in
      if seconds a \<ge> 60 then
        (let b = a\<lparr>seconds := 0\<rparr>;
             c = b\<lparr>minutes := wrap32 (minutes b + 1)\<rparr> in
         if minutes c \<ge> 100 then c\<lparr>minutes := 0\<rparr> else c)
      else a)"

text \<open>\<open>n\<close> invocations of the tick handler in a row.\<close>

fun ticks :: "nat \<Rightarrow> board \<Rightarrow> board" where
  "ticks 0 s = s"
| "ticks (Suc n) s = ticks n (updateTime s)"

section \<open>Serial shifter\<close>

function shiftOut_loop :: "8 word \<Rightarrow> int \<Rightarrow> board \<Rightarrow> board" where
  "shiftOut_loop val i s =
     (if i \<ge> 0 then
        shiftOut_loop val (i - 1)
          (set_clockPin False
            (set_clockPin True
              (set_dataPin ((uint val AND push_bit (nat i) 1) \<noteq> 0) s)))
      else s)"
  by pat_completeness auto
termination
  by (relation "measure (\<lambda>(val, i, s). nat (i + 1))") auto

declare shiftOut_loop.simps [simp del]

definition shiftOutMSBFirst :: "8 word \<Rightarrow> board \<Rightarrow> board" where
  "shiftOutMSBFirst val s = shiftOut_loop val 7 s"

definition writeToShiftRegister :: "8 word \<Rightarrow> 8 word \<Rightarrow> board \<Rightarrow> board" where
  "writeToShiftRegister segments digit s =
     set_latchPin True
       (shiftOutMSBFirst digit
         (shiftOutMSBFirst segments
           (set_latchPin False s)))"

section \<open>Multiplexed display driver\<close>

text \<open>The initialiser of \<^verbatim>\<open>int digits[4]\<close>.\<close>

definition digits_of :: "int \<Rightarrow> int list" where
  "digits_of number =
     [(number sdiv 1000) smod 10,
      (number sdiv 100) smod 10,
      (number sdiv 10) smod 10,
      number smod 10]"

text \<open>The byte held by \<^verbatim>\<open>segments\<close> when it is handed to \<^verbatim>\<open>writeToShiftRegister\<close>
  in round \<open>i\<close> of the loop: the table entry, with \<^verbatim>\<open>&= ~0x80\<close> applied (on \<^verbatim>\<open>int\<close>,
  then cut back to eight bits) when the decimal point is asked for at this position.\<close>

definition segments_at :: "int list \<Rightarrow> bool \<Rightarrow> int \<Rightarrow> int \<Rightarrow> 8 word option" where
  "segments_at digits showDecimalPoint decimalPosition i =
     (case c_index digits i of
        None \<Rightarrow> None
      | Some d \<Rightarrow>
          (case c_index digitPattern d of
             None \<Rightarrow> None
           | Some segments \<Rightarrow>
               Some (if showDecimalPoint \<and> i = decimalPosition
                     then word_of_int (uint segments AND NOT (0x80 :: int))
                     else segments)))"

text \<open>One round of the loop of \<^verbatim>\<open>displayNumber\<close>.\<close>

definition display_round :: "int list \<Rightarrow> bool \<Rightarrow> int \<Rightarrow> int \<Rightarrow> board \<Rightarrow> board option" where
  "display_round digits showDecimalPoint decimalPosition i s =
     (case segments_at digits showDecimalPoint decimalPosition i of
        None \<Rightarrow> None
      | Some segments \<Rightarrow>
          (case c_index digitPos i of
             None \<Rightarrow> None
           | Some pos \<Rightarrow> Some (sleep_for 2 (writeToShiftRegister segments pos s))))"

function displayNumber_loop ::
  "int list \<Rightarrow> bool \<Rightarrow> int \<Rightarrow> int \<Rightarrow> board \<Rightarrow> board option" where
  "displayNumber_loop digits showDecimalPoint decimalPosition i s =
     (if i < 4 then
        (case display_round digits showDecimalPoint decimalPosition i s of
           None \<Rightarrow> None
         | Some s' \<Rightarrow> displayNumber_loop digits showDecimalPoint decimalPosition (i + 1) s')
      else Some s)"
  by pat_completeness auto
termination
  by (relation "measure (\<lambda>(digits, sh, dp, i, s). nat (4 - i))") auto

declare displayNumber_loop.simps [simp del]

text \<open>Both calls in the program pass all three arguments, so the defaults of the
  declaration play no part.\<close>

definition displayNumber :: "int \<Rightarrow> bool \<Rightarrow> int \<Rightarrow> board \<Rightarrow> board option" where
  "displayNumber number showDecimalPoint decimalPosition s =
     displayNumber_loop (digits_of number) showDecimalPoint decimalPosition 0 s"

section \<open>Single-precision arithmetic of the voltage branch\<close>

text \<open>
  The voltage branch computes in \<^verbatim>\<open>float\<close>. A finite \<^verbatim>\<open>float\<close> is modelled as the real
  number it denotes, and every operation as the exact operation followed by \<open>f32_round\<close>:
  rounding to the nearest binary32 value (24 significant bits, exponents from \<open>-126\<close> to
  \<open>127\<close>, subnormals below), ties to the even significand. A result that rounds beyond
  the largest finite value is an infinity, which the model does not represent: \<open>None\<close>.
\<close>

definition round_half_even :: "real \<Rightarrow> int" where
  "round_half_even q =
     (let f = \<lfloor>q\<rfloor>; r = q - of_int f in
      if r < 1 / 2 then f
      else if 1 / 2 < r then f + 1
      else if even f then f else f + 1)"

text \<open>The binary exponent of a non-negative \<open>a\<close>: the largest \<open>e\<close> among
  \<open>k - 126, \<dots>, -125\<close> with \<open>2 powi e \<le> a\<close>, and \<open>-126\<close> when there is none.\<close>

fun f32_exponent :: "nat \<Rightarrow> real \<Rightarrow> int" where
  "f32_exponent 0 a = - 126"
| "f32_exponent (Suc k) a =
     (if 2 powi (int (Suc k) - 126) \<le> a then int (Suc k) - 126 else f32_exponent k a)"

definition f32_round :: "real \<Rightarrow> real option" where
  "f32_round x =
     (let a = \<bar>x\<bar>;
          e = f32_exponent 253 a;
          ulp = 2 powi (e - 23);
          y = of_int (round_half_even (a / ulp)) * ulp
      in if 2 ^ 128 \<le> y then None else Some (sgn x * y))"

text \<open>\<^verbatim>\<open>(int)x\<close> on a \<^verbatim>\<open>float\<close>: the fraction is dropped; a value outside the range of
  \<^verbatim>\<open>int\<close> is undefined behaviour.\<close>

definition float_to_int :: "real \<Rightarrow> int option" where
  "float_to_int x =
     (let t = (if 0 \<le> x then \<lfloor>x\<rfloor> else \<lceil>x\<rceil>)
      in if - (2 ^ 31) \<le> t \<and> t < 2 ^ 31 then Some t else None)"

text \<open>\<^verbatim>\<open>potentiometer.read_u16() / 65535.0f * 3.3f\<close>: the sample is converted to
  \<^verbatim>\<open>float\<close>, the two literals are the binary32 values nearest to the decimals written.\<close>

definition voltage_of :: "16 word \<Rightarrow> real option" where
  "voltage_of raw = do {
     r \<leftarrow> f32_round (of_int (uint raw));
     c \<leftarrow> f32_round 65535;
     q \<leftarrow> f32_round (r / c);
     k \<leftarrow> f32_round (33 / 10);
     f32_round (q * k)
   }"

text \<open>\<^verbatim>\<open>(int)(voltage * 1000)\<close>: the \<^verbatim>\<open>int\<close> 1000 is converted to \<^verbatim>\<open>float\<close> and the
  product is a \<^verbatim>\<open>float\<close>.\<close>

definition voltageValue_of :: "real \<Rightarrow> int option" where
  "voltageValue_of voltage = do {
     m \<leftarrow> f32_round 1000;
     p \<leftarrow> f32_round (voltage * m);
     float_to_int p
   }"

section \<open>Main loop\<close>

text \<open>The inputs of one pass through the loop are the levels read from the buttons
  \<^verbatim>\<open>s1\<close> and \<^verbatim>\<open>s3\<close> (\<open>True\<close> is high, that is, not pressed) and the analog sample.\<close>

definition reset_if_pressed :: "bool \<Rightarrow> board \<Rightarrow> board" where
  "reset_if_pressed s1 s =
     (if \<not> s1 then sleep_for 200 (s\<lparr>minutes := 0, seconds := 0\<rparr>) else s)"

definition timeValue_of :: "board \<Rightarrow> int" where
  "timeValue_of s = wrap32 (wrap32 (minutes s * 100) + seconds s)"

definition loop_iteration :: "bool \<Rightarrow> bool \<Rightarrow> 16 word \<Rightarrow> board \<Rightarrow> board option" where
  "loop_iteration s1 s3 raw s =
     (let s' = reset_if_pressed s1 s in
      if \<not> s3 then do {
        voltage \<leftarrow> voltage_of raw;
        voltageValue \<leftarrow> voltageValue_of voltage;
        displayNumber voltageValue True 0 s'
      } else displayNumber (timeValue_of s') True 1 s')"

section \<open>Vocabulary of the properties\<close>

text \<open>What one bit, one byte and one two-byte frame look like on the lines, and the
  levels written to one line, read off a log.\<close>

definition bit_events :: "bool \<Rightarrow> event list" where
  "bit_events b = [Write DataLine b, Write ClockLine True, Write ClockLine False]"

definition byte_events :: "8 word \<Rightarrow> event list" where
  "byte_events val = concat (map (\<lambda>k. bit_events (bit val k)) [7, 6, 5, 4, 3, 2, 1, 0])"

definition frame_events :: "8 word \<Rightarrow> 8 word \<Rightarrow> event list" where
  "frame_events segments digit =
     [Write LatchLine False] @ byte_events segments @ byte_events digit @ [Write LatchLine True]"

fun writes_to :: "line \<Rightarrow> event list \<Rightarrow> bool list" where
  "writes_to l [] = []"
| "writes_to l (Write l' v # es) = (if l' = l then v # writes_to l es else writes_to l es)"
| "writes_to l (SleepMs n # es) = writes_to l es"

definition time_inv :: "board \<Rightarrow> bool" where
  "time_inv s \<longleftrightarrow> 0 \<le> seconds s \<and> seconds s < 60 \<and> 0 \<le> minutes s \<and> minutes s < 100"

text \<open>
  The states of the board while the program runs. Each rule is one indivisible step: a
  write to a line, a sleep, one of the two stores of \<^verbatim>\<open>seconds = minutes = 0\<close>, or a run
  of the tick handler, which is called from the ticker's interrupt and is not interrupted
  by the main loop. The steps may follow each other in any order, which covers every
  interleaving of the tick handler with the main loop and more.
\<close>

inductive reachable :: "board \<Rightarrow> bool" where
  start: "reachable init_board"
| drive_latch: "reachable s \<Longrightarrow> reachable (set_latchPin v s)"
| drive_clock: "reachable s \<Longrightarrow> reachable (set_clockPin v s)"
| drive_data: "reachable s \<Longrightarrow> reachable (set_dataPin v s)"
| sleep: "reachable s \<Longrightarrow> reachable (sleep_for ms s)"
| store_minutes: "reachable s \<Longrightarrow> reachable (s\<lparr>minutes := 0\<rparr>)"
| store_seconds: "reachable s \<Longrightarrow> reachable (s\<lparr>seconds := 0\<rparr>)"
| tick: "reachable s \<Longrightarrow> reachable (updateTime s)"

section \<open>Digit extraction\<close>

text \<open>On a non-negative number and a positive divisor the truncating operations of C++
  are the flooring ones of HOL.\<close>

lemma sdiv_nonneg: "0 \<le> n \<Longrightarrow> 0 < k \<Longrightarrow> n sdiv k = n div (k::int)"
  by (simp add: signed_divide_int_def sgn_if)

lemma smod_nonneg: "0 \<le> n \<Longrightarrow> 0 < k \<Longrightarrow> n smod k = n mod (k::int)"
  by (simp add: smod_mod_positive)

lemma digits_of_nonneg:
  "0 \<le> n \<Longrightarrow> digits_of n = [n div 1000 mod 10, n div 100 mod 10, n div 10 mod 10, n mod 10]"
  by (simp add: digits_of_def sdiv_nonneg smod_nonneg pos_imp_zdiv_nonneg_iff)

lemma wrap32_id: "- (2 ^ 31) \<le> x \<Longrightarrow> x < 2 ^ 31 \<Longrightarrow> wrap32 x = x"
  by (simp add: wrap32_def)

lemma digit_mod:
  fixes n k c :: int
  assumes "k \<noteq> 0"
  shows "(n mod (k * (10 * c))) div k mod 10 = n div k mod 10"
proof -
  define z where "z = - (c * (n div (k * (10 * c))))"
  have "n mod (k * (10 * c)) = n + k * (z * 10)"
    unfolding z_def by (simp add: minus_mult_div_eq_mod [symmetric] algebra_simps)
  moreover have "(n + k * (z * 10)) div k = z * 10 + n div k"
    using assms by (rule div_mult_self2)
  ultimately have "(n mod (k * (10 * c))) div k = n div k + z * 10"
    by simp
  then show ?thesis by (simp only: mod_mult_self1)
qed

lemma digits_alias:
  assumes "0 \<le> n"
  shows "digits_of (n mod 10000) = digits_of n"
proof -
  have a: "n mod 10000 div 1000 mod 10 = n div 1000 mod 10"
    using digit_mod [of 1000 n 1] by simp
  have b: "n mod 10000 div 100 mod 10 = n div 100 mod 10"
    using digit_mod [of 100 n 10] by simp
  have c: "n mod 10000 div 10 mod 10 = n div 10 mod 10"
    using digit_mod [of 10 n 100] by simp
  have d: "n mod 10000 mod 10 = n mod 10"
    by (rule mod_mod_cancel) simp
  have "digits_of (n mod 10000) =
        [n mod 10000 div 1000 mod 10, n mod 10000 div 100 mod 10,
         n mod 10000 div 10 mod 10, n mod 10000 mod 10]"
    by (rule digits_of_nonneg) simp
  also have "\<dots> = [n div 1000 mod 10, n div 100 mod 10, n div 10 mod 10, n mod 10]"
    by (simp only: a b c d)
  also have "\<dots> = digits_of n"
    using assms by (rule digits_of_nonneg [symmetric])
  finally show ?thesis .
qed

lemma recompose_below_10000:
  fixes n :: int
  assumes "0 \<le> n" "n \<le> 9999"
  shows "n div 1000 mod 10 * 1000 + n div 100 mod 10 * 100 + n div 10 mod 10 * 10 + n mod 10 = n"
proof -
  have e1: "n = 10 * (n div 10) + n mod 10" by simp
  have e2: "n div 10 = 10 * (n div 10 div 10) + n div 10 mod 10" by simp
  have e3: "n div 100 = 10 * (n div 100 div 10) + n div 100 mod 10" by simp
  have d2: "n div 10 div 10 = n div 100" by (simp add: zdiv_zmult2_eq [symmetric])
  have d3: "n div 100 div 10 = n div 1000" by (simp add: zdiv_zmult2_eq [symmetric])
  have "0 \<le> n div 1000" using assms by (simp add: pos_imp_zdiv_nonneg_iff)
  moreover have "n div 1000 \<le> 9999 div 1000" using assms by (intro zdiv_mono1) simp_all
  ultimately have s: "n div 1000 mod 10 = n div 1000" by simp
  show ?thesis using e1 e2 e3 d2 d3 s by linarith
qed

lemma digits_recompose:
  assumes "0 \<le> n" and "n \<le> 9999"
  shows "digits_of n ! 0 * 1000 + digits_of n ! 1 * 100 + digits_of n ! 2 * 10 + digits_of n ! 3
           = n"
proof -
  have "digits_of n = [n div 1000 mod 10, n div 100 mod 10, n div 10 mod 10, n mod 10]"
    using assms by (simp only: digits_of_nonneg)
  then have "digits_of n ! 0 * 1000 + digits_of n ! 1 * 100 + digits_of n ! 2 * 10 + digits_of n ! 3
          = n div 1000 mod 10 * 1000 + n div 100 mod 10 * 100 + n div 10 mod 10 * 10 + n mod 10"
    by simp
  also have "\<dots> = n"
    using assms by (rule recompose_below_10000)
  finally show ?thesis .
qed

text \<open>
  Claim C1. For every integer \<open>n\<close> from 0 to 9999, the four digits that
  \<^verbatim>\<open>displayNumber\<close> extracts, \<open>(n / 1000) % 10\<close>, \<open>(n / 100) % 10\<close>, \<open>(n / 10) % 10\<close> and
  \<open>n % 10\<close>, put back together as \<open>d0 * 1000 + d1 * 100 + d2 * 10 + d3\<close>, give \<open>n\<close>.
\<close>

theorem digits_roundtrip:
  assumes "0 \<le> n" and "n \<le> 9999"
  shows "digits_of n =
           [(n sdiv 1000) smod 10, (n sdiv 100) smod 10, (n sdiv 10) smod 10, n smod 10] \<and>
         digits_of n ! 0 * 1000 + digits_of n ! 1 * 100 + digits_of n ! 2 * 10 + digits_of n ! 3
           = n"
proof
  show "digits_of n =
           [(n sdiv 1000) smod 10, (n sdiv 100) smod 10, (n sdiv 10) smod 10, n smod 10]"
    by (simp only: digits_of_def)
  from assms
  show "digits_of n ! 0 * 1000 + digits_of n ! 1 * 100 + digits_of n ! 2 * 10 + digits_of n ! 3
          = n"
    by (rule digits_recompose)
qed

theorem digits_roundtrip_witness:
  "(0::int) \<le> 530 \<and> (530::int) \<le> 9999 \<and> digits_of 530 = [0, 5, 3, 0] \<and>
   digits_of 530 ! 0 * 1000 + digits_of 530 ! 1 * 100 + digits_of 530 ! 2 * 10 + digits_of 530 ! 3
     = 530"
proof -
  have h1: "(0::int) \<le> 530" and h2: "(530::int) \<le> 9999" by simp_all
  have v: "digits_of 530 = [0, 5, 3, 0]" by (simp add: digits_of_def)
  from digits_roundtrip [OF h1 h2] have
    "digits_of 530 ! 0 * 1000 + digits_of 530 ! 1 * 100 + digits_of 530 ! 2 * 10 + digits_of 530 ! 3
       = 530" by (rule conjunct2)
  with h1 h2 v show ?thesis by (intro conjI)
qed

text \<open>
  Claim C8. For every integer \<open>n\<close> above 9999, \<^verbatim>\<open>displayNumber\<close> extracts the digits of
  \<open>n mod 10000\<close> and therefore does exactly what it does for \<open>n mod 10000\<close>: the
  value is not rejected, its higher digits are dropped.
\<close>

theorem displayNumber_aliases:
  assumes "9999 < n"
  shows "digits_of n = digits_of (n mod 10000) \<and>
         displayNumber n showDecimalPoint decimalPosition s =
           displayNumber (n mod 10000) showDecimalPoint decimalPosition s"
proof -
  have "digits_of (n mod 10000) = digits_of n"
    using assms by (intro digits_alias) simp
  then show ?thesis by (simp only: displayNumber_def simp_thms)
qed

theorem displayNumber_aliases_witness:
  "(9999::int) < 12345 \<and> digits_of 12345 = [2, 3, 4, 5] \<and>
   digits_of (12345 mod 10000) = [2, 3, 4, 5] \<and>
   displayNumber 12345 True 1 init_board = displayNumber (12345 mod 10000) True 1 init_board"
proof -
  have h: "(9999::int) < 12345" by simp
  have v: "digits_of 12345 = [2, 3, 4, 5]" by (simp add: digits_of_def)
  show ?thesis
    using h v displayNumber_aliases [OF h, of True 1 init_board] by (simp only: simp_thms)
qed

section \<open>Time base: what the tick handler computes\<close>

lemma updateTime_inv_step:
  assumes "time_inv s"
  shows "updateTime s =
           s\<lparr>seconds := (seconds s + 1) mod 60,
             minutes := (minutes s + (seconds s + 1) div 60) mod 100\<rparr>"
proof -
  from assms have r: "0 \<le> seconds s" "seconds s < 60" "0 \<le> minutes s" "minutes s < 100"
    by (simp_all add: time_inv_def)
  then have w1: "wrap32 (seconds s + 1) = seconds s + 1"
    and w2: "wrap32 (minutes s + 1) = minutes s + 1"
    by (simp_all add: wrap32_id)
  show ?thesis
  proof (cases "seconds s = 59")
    case True
    show ?thesis
    proof (cases "minutes s = 99")
      case True
      with \<open>seconds s = 59\<close> show ?thesis
        by (simp add: updateTime_def wrap32_def)
    next
      case False
      with r have "minutes s + 1 < 100" by simp
      with r \<open>seconds s = 59\<close> w2 show ?thesis
        by (simp add: updateTime_def wrap32_def)
    qed
  next
    case False
    with r have "seconds s + 1 < 60" by simp
    with r have "(seconds s + 1) div 60 = 0" "(seconds s + 1) mod 60 = seconds s + 1"
      by simp_all
    with r \<open>seconds s + 1 < 60\<close> show ?thesis
      by (simp add: updateTime_def w1)
  qed
qed

lemma updateTime_preserves_inv: "time_inv s \<Longrightarrow> time_inv (updateTime s)"
  by (simp add: updateTime_inv_step) (simp add: time_inv_def)

lemma div_60_carry:
  fixes a b :: int
  shows "a div 60 + (a mod 60 + b) div 60 = (a + b) div 60"
proof -
  define q where "q = a div 60"
  define r where "r = a mod 60"
  have f: "a = 60 * q + r" unfolding q_def r_def by simp
  have "(a + b) div 60 = (60 * q + (r + b)) div 60" by (simp only: f add.assoc)
  also have "\<dots> = q + (r + b) div 60" by (rule div_mult_self4) simp
  finally show ?thesis unfolding q_def r_def by simp
qed

lemma ticks_closed_form:
  "time_inv s \<Longrightarrow>
   ticks n s = s\<lparr>seconds := (seconds s + int n) mod 60,
                 minutes := (minutes s + (seconds s + int n) div 60) mod 100\<rparr>"
proof (induction n arbitrary: s)
  case 0
  then show ?case by (simp add: time_inv_def)
next
  case (Suc n)
  let ?a = "seconds s + 1"
  have inv': "time_inv (updateTime s)" using Suc.prems by (rule updateTime_preserves_inv)
  have u: "updateTime s = s\<lparr>seconds := ?a mod 60, minutes := (minutes s + ?a div 60) mod 100\<rparr>"
    using Suc.prems by (rule updateTime_inv_step)
  have sec: "seconds (updateTime s) = ?a mod 60"
    and mins: "minutes (updateTime s) = (minutes s + ?a div 60) mod 100"
    unfolding u by simp_all
  have e: "?a + int n = seconds s + int (Suc n)" by simp
  have a1: "(?a mod 60 + int n) mod 60 = (seconds s + int (Suc n)) mod 60"
    unfolding e [symmetric] by (rule mod_add_left_eq)
  have "((minutes s + ?a div 60) mod 100 + (?a mod 60 + int n) div 60) mod 100
       = (minutes s + ?a div 60 + (?a mod 60 + int n) div 60) mod 100"
    by (rule mod_add_left_eq)
  also have "minutes s + ?a div 60 + (?a mod 60 + int n) div 60
       = minutes s + (?a div 60 + (?a mod 60 + int n) div 60)"
    by (rule add.assoc)
  finally have a2: "((minutes s + ?a div 60) mod 100 + (?a mod 60 + int n) div 60) mod 100
       = (minutes s + (seconds s + int (Suc n)) div 60) mod 100"
    unfolding div_60_carry e .
  have collapse: "(updateTime s)\<lparr>seconds := X, minutes := Y\<rparr> = s\<lparr>seconds := X, minutes := Y\<rparr>"
    for X Y by (simp add: u)
  have "ticks (Suc n) s = ticks n (updateTime s)" by simp
  also have "\<dots> = (updateTime s)\<lparr>seconds := (seconds (updateTime s) + int n) mod 60,
       minutes := (minutes (updateTime s) + (seconds (updateTime s) + int n) div 60) mod 100\<rparr>"
    using inv' by (rule Suc.IH)
  also have "\<dots> = s\<lparr>seconds := (seconds s + int (Suc n)) mod 60,
                 minutes := (minutes s + (seconds s + int (Suc n)) div 60) mod 100\<rparr>"
    unfolding sec mins a1 a2 by (rule collapse)
  finally show ?case .
qed

lemma time_inv_init: "time_inv init_board"
  by (simp add: time_inv_def init_board_def)

lemma time_inv_setup: "time_inv (main_setup init_board)"
  by (simp add: time_inv_def init_board_def main_setup_def
        set_latchPin_def set_clockPin_def set_dataPin_def)

text \<open>
  Claim C2. From the power-on state, 60 calls of \<^verbatim>\<open>updateTime\<close> leave \<open>seconds = 0\<close> and
  \<open>minutes = 1\<close>, and 6000 calls leave both at 0 again; in general \<open>n\<close> calls leave
  \<open>seconds = n mod 60\<close> and \<open>minutes = (n div 60) mod 100\<close>. One call adds one to
  \<open>seconds\<close>; when that reaches 60 it sets \<open>seconds\<close> to 0 and adds one to
  \<open>minutes\<close>; when that reaches 100 it sets \<open>minutes\<close> to 0. This is stated twice: on
  the states within the counter ranges, where reaching is being equal, and on all states
  whose counters are not the largest \<^verbatim>\<open>int\<close>, where it is being at least so much.
  Nothing else of the board changes.
\<close>

theorem updateTime_counts:
  "ticks 60 init_board = init_board\<lparr>seconds := 0, minutes := 1\<rparr> \<and>
   ticks 6000 init_board = init_board\<lparr>seconds := 0, minutes := 0\<rparr> \<and>
   (\<forall>n. ticks n init_board
          = init_board\<lparr>seconds := int n mod 60, minutes := (int n div 60) mod 100\<rparr>) \<and>
   (\<forall>s. time_inv s \<longrightarrow>
      updateTime s =
        (if seconds s + 1 = 60
         then (if minutes s + 1 = 100
               then s\<lparr>seconds := 0, minutes := 0\<rparr>
               else s\<lparr>seconds := 0, minutes := minutes s + 1\<rparr>)
         else s\<lparr>seconds := seconds s + 1\<rparr>)) \<and>
   (\<forall>s. - (2 ^ 31) \<le> seconds s \<and> seconds s < 2 ^ 31 - 1 \<and>
        - (2 ^ 31) \<le> minutes s \<and> minutes s < 2 ^ 31 - 1 \<longrightarrow>
      updateTime s =
        (if 60 \<le> seconds s + 1
         then (if 100 \<le> minutes s + 1
               then s\<lparr>seconds := 0, minutes := 0\<rparr>
               else s\<lparr>seconds := 0, minutes := minutes s + 1\<rparr>)
         else s\<lparr>seconds := seconds s + 1\<rparr>))"
proof -
  have n: "ticks n init_board
          = init_board\<lparr>seconds := int n mod 60, minutes := (int n div 60) mod 100\<rparr>" for n
    using ticks_closed_form [OF time_inv_init, of n] by (simp add: init_board_def)
  have a: "ticks 60 init_board = init_board\<lparr>seconds := 0, minutes := 1\<rparr>"
    unfolding n by simp
  have b: "ticks 6000 init_board = init_board\<lparr>seconds := 0, minutes := 0\<rparr>"
    unfolding n by simp
  have c: "updateTime s =
        (if seconds s + 1 = 60
         then (if minutes s + 1 = 100
               then s\<lparr>seconds := 0, minutes := 0\<rparr>
               else s\<lparr>seconds := 0, minutes := minutes s + 1\<rparr>)
         else s\<lparr>seconds := seconds s + 1\<rparr>)" if inv: "time_inv s" for s
  proof -
    from inv have r: "0 \<le> seconds s" "seconds s < 60" "0 \<le> minutes s" "minutes s < 100"
      by (simp_all add: time_inv_def)
    show ?thesis
    proof (cases "seconds s + 1 = 60")
      case True
      then have s59: "seconds s = 59" by simp
      show ?thesis
      proof (cases "minutes s + 1 = 100")
        case True
        then have "minutes s = 99" by simp
        with s59 show ?thesis by (simp add: updateTime_inv_step [OF inv])
      next
        case False
        with r have "minutes s + 1 < 100" by simp
        with r s59 False show ?thesis by (simp add: updateTime_inv_step [OF inv])
      qed
    next
      case False
      with r have "seconds s + 1 < 60" by simp
      with r False show ?thesis by (simp add: updateTime_inv_step [OF inv])
    qed
  qed
  have d: "updateTime s =
        (if 60 \<le> seconds s + 1
         then (if 100 \<le> minutes s + 1
               then s\<lparr>seconds := 0, minutes := 0\<rparr>
               else s\<lparr>seconds := 0, minutes := minutes s + 1\<rparr>)
         else s\<lparr>seconds := seconds s + 1\<rparr>)"
    if "- (2 ^ 31) \<le> seconds s \<and> seconds s < 2 ^ 31 - 1 \<and>
        - (2 ^ 31) \<le> minutes s \<and> minutes s < 2 ^ 31 - 1" for s
  proof -
    from that have "wrap32 (seconds s + 1) = seconds s + 1"
      by (intro wrap32_id) simp_all
    moreover from that have "wrap32 (minutes s + 1) = minutes s + 1"
      by (intro wrap32_id) simp_all
    ultimately show ?thesis by (simp add: updateTime_def Let_def)
  qed
  from a b n c d show ?thesis by blast
qed

theorem updateTime_counts_witness:
  "time_inv (init_board\<lparr>seconds := 59, minutes := 99\<rparr>) \<and>
   updateTime (init_board\<lparr>seconds := 59, minutes := 99\<rparr>) = init_board \<and>
   time_inv (init_board\<lparr>seconds := 59, minutes := 7\<rparr>) \<and>
   updateTime (init_board\<lparr>seconds := 59, minutes := 7\<rparr>) = init_board\<lparr>minutes := 8\<rparr> \<and>
   time_inv (init_board\<lparr>seconds := 12\<rparr>) \<and>
   updateTime (init_board\<lparr>seconds := 12\<rparr>) = init_board\<lparr>seconds := 13\<rparr> \<and>
   updateTime (init_board\<lparr>seconds := 75, minutes := 120\<rparr>) = init_board"
proof -
  note c2 = conjunct2
  have i1: "time_inv (init_board\<lparr>seconds := 59, minutes := 99\<rparr>)"
    and i2: "time_inv (init_board\<lparr>seconds := 59, minutes := 7\<rparr>)"
    and i3: "time_inv (init_board\<lparr>seconds := 12\<rparr>)"
    by (simp_all add: time_inv_def init_board_def)
  have step: "\<forall>s. time_inv s \<longrightarrow>
      updateTime s =
        (if seconds s + 1 = 60
         then (if minutes s + 1 = 100
               then s\<lparr>seconds := 0, minutes := 0\<rparr>
               else s\<lparr>seconds := 0, minutes := minutes s + 1\<rparr>)
         else s\<lparr>seconds := seconds s + 1\<rparr>)"
    by (rule updateTime_counts [THEN c2, THEN c2, THEN c2, THEN conjunct1])
  have u1: "updateTime (init_board\<lparr>seconds := 59, minutes := 99\<rparr>) = init_board"
    using step [rule_format, OF i1] by (simp add: init_board_def)
  have u2: "updateTime (init_board\<lparr>seconds := 59, minutes := 7\<rparr>) = init_board\<lparr>minutes := 8\<rparr>"
    using step [rule_format, OF i2] by (simp add: init_board_def)
  have u3: "updateTime (init_board\<lparr>seconds := 12\<rparr>) = init_board\<lparr>seconds := 13\<rparr>"
    using step [rule_format, OF i3] by (simp add: init_board_def)
  have u4: "updateTime (init_board\<lparr>seconds := 75, minutes := 120\<rparr>) = init_board"
    using updateTime_counts [THEN c2, THEN c2, THEN c2, THEN c2, rule_format,
      of "init_board\<lparr>seconds := 75, minutes := 120\<rparr>"]
    by (simp add: init_board_def)
  from i1 u1 i2 u2 i3 u3 u4 show ?thesis by (intro conjI)
qed

section \<open>Serial shifter: what appears on the lines\<close>

lemma bit_test: "(uint (v :: 8 word) AND push_bit k 1 \<noteq> 0) = bit v k"
proof -
  have "(uint v AND push_bit k 1 \<noteq> 0) = bit (uint v) k"
    by (simp only: bit_iff_and_push_bit_not_eq_0)
  then show ?thesis by (auto simp: bit_uint_iff dest: bit_imp_le_length)
qed

lemma bit_test_exp: "(uint (v :: 8 word) AND 2 ^ k \<noteq> 0) = bit v k"
  using bit_test [of v k] by simp

lemma shiftOut_loop_step:
  "0 \<le> i \<Longrightarrow> shiftOut_loop v i s =
     shiftOut_loop v (i - 1)
       (s\<lparr>dataPin := bit v (nat i), clockPin := False,
          trace := trace s @ bit_events (bit v (nat i))\<rparr>)"
  by (subst shiftOut_loop.simps)
     (simp add: bit_test_exp set_clockPin_def set_dataPin_def bit_events_def)

lemma shiftOut_loop_done: "shiftOut_loop v (- 1) s = s"
  by (subst shiftOut_loop.simps) simp

lemma shiftOutMSBFirst_eq:
  "shiftOutMSBFirst v s =
     s\<lparr>clockPin := False, dataPin := bit v 0, trace := trace s @ byte_events v\<rparr>"
  by (simp add: shiftOutMSBFirst_def shiftOut_loop_step shiftOut_loop_done byte_events_def)

lemma writeToShiftRegister_eq:
  "writeToShiftRegister segments digit s =
     s\<lparr>latchPin := True, clockPin := False, dataPin := bit digit 0,
       trace := trace s @ frame_events segments digit\<rparr>"
  by (simp add: writeToShiftRegister_def shiftOutMSBFirst_eq set_latchPin_def frame_events_def)

lemma writes_to_append: "writes_to l (xs @ ys) = writes_to l xs @ writes_to l ys"
  by (induction l xs rule: writes_to.induct) simp_all

lemma data_writes_byte:
  "writes_to DataLine (byte_events v) = map (bit v) [7, 6, 5, 4, 3, 2, 1, 0]"
  by (simp add: byte_events_def bit_events_def)

lemma clock_writes_byte:
  "writes_to ClockLine (byte_events v) = concat (replicate 8 [True, False])"
  by (simp add: byte_events_def bit_events_def eval_nat_numeral)

lemma latch_writes_byte: "writes_to LatchLine (byte_events v) = []"
  by (simp add: byte_events_def bit_events_def)

lemma bits_B0:
  "map (bit (0xB0 :: 8 word)) [7, 6, 5, 4, 3, 2, 1, 0]
     = [True, False, True, True, False, False, False, False]"
  by code_simp

text \<open>
  Claim C3. For every 8-bit value, \<^verbatim>\<open>shiftOutMSBFirst\<close> appends to the log, for the bits
  7, 6, \<dots>, 0 in this order, a write of the bit to the data line followed by a write of high
  and a write of low to the clock line, and nothing else. So the clock line is written
  high then low exactly eight times, the data line takes the bits most significant first
  (\<open>1,0,1,1,0,0,0,0\<close> for \<open>0b10110000\<close>), and afterwards the data line holds bit 0 and
  the clock line is low. The latch line and the counters are not touched.
\<close>

theorem shiftOutMSBFirst_protocol:
  "trace (shiftOutMSBFirst val s) =
     trace s @ concat (map (\<lambda>k. [Write DataLine (bit val k), Write ClockLine True, Write ClockLine False])
                           [7, 6, 5, 4, 3, 2, 1, 0]) \<and>
   trace (shiftOutMSBFirst val s) = trace s @ byte_events val \<and>
   writes_to ClockLine (byte_events val) = concat (replicate 8 [True, False]) \<and>
   writes_to DataLine (byte_events val) = map (bit val) [7, 6, 5, 4, 3, 2, 1, 0] \<and>
   writes_to LatchLine (byte_events val) = [] \<and>
   writes_to DataLine (byte_events 0xB0) = [True, False, True, True, False, False, False, False] \<and>
   dataPin (shiftOutMSBFirst val s) = bit val 0 \<and>
   clockPin (shiftOutMSBFirst val s) = False \<and>
   latchPin (shiftOutMSBFirst val s) = latchPin s \<and>
   seconds (shiftOutMSBFirst val s) = seconds s \<and>
   minutes (shiftOutMSBFirst val s) = minutes s"
proof -
  have t: "trace (shiftOutMSBFirst val s) = trace s @ byte_events val"
    by (simp add: shiftOutMSBFirst_eq)
  have e: "byte_events val =
      concat (map (\<lambda>k. [Write DataLine (bit val k), Write ClockLine True, Write ClockLine False])
                  [7, 6, 5, 4, 3, 2, 1, 0])"
    by (simp add: byte_events_def bit_events_def)
  have b: "writes_to DataLine (byte_events 0xB0)
             = [True, False, True, True, False, False, False, False]"
    by (simp only: data_writes_byte bits_B0)
  have p: "dataPin (shiftOutMSBFirst val s) = bit val 0"
    "clockPin (shiftOutMSBFirst val s) = False"
    "latchPin (shiftOutMSBFirst val s) = latchPin s"
    "seconds (shiftOutMSBFirst val s) = seconds s"
    "minutes (shiftOutMSBFirst val s) = minutes s"
    by (simp_all add: shiftOutMSBFirst_eq)
  from t e have t': "trace (shiftOutMSBFirst val s) =
     trace s @ concat (map (\<lambda>k. [Write DataLine (bit val k), Write ClockLine True, Write ClockLine False])
                           [7, 6, 5, 4, 3, 2, 1, 0])" by (simp only:)
  from t' t clock_writes_byte data_writes_byte latch_writes_byte b p
  show ?thesis by (intro conjI)
qed

text \<open>
  Claim C5. Every call of \<^verbatim>\<open>writeToShiftRegister\<close> appends to the log exactly: latch low,
  the eight bits of the segment byte, the eight bits of the digit-select byte, latch high.
  Two bytes, segment byte first; the latch line is written twice, low at the start and
  high at the end, and is low after the first byte and after the second.
\<close>

theorem writeToShiftRegister_framing:
  "trace (writeToShiftRegister segments digit s) =
     trace s @ [Write LatchLine False] @ byte_events segments @ byte_events digit
             @ [Write LatchLine True] \<and>
   trace (set_latchPin False s) = trace s @ [Write LatchLine False] \<and>
   trace (shiftOutMSBFirst segments (set_latchPin False s))
     = trace s @ [Write LatchLine False] @ byte_events segments \<and>
   trace (shiftOutMSBFirst digit (shiftOutMSBFirst segments (set_latchPin False s)))
     = trace s @ [Write LatchLine False] @ byte_events segments @ byte_events digit \<and>
   writes_to LatchLine (frame_events segments digit) = [False, True] \<and>
   writes_to ClockLine (frame_events segments digit) = concat (replicate 16 [True, False]) \<and>
   writes_to DataLine (frame_events segments digit)
     = map (bit segments) [7, 6, 5, 4, 3, 2, 1, 0] @ map (bit digit) [7, 6, 5, 4, 3, 2, 1, 0] \<and>
   latchPin (shiftOutMSBFirst segments (set_latchPin False s)) = False \<and>
   latchPin (shiftOutMSBFirst digit (shiftOutMSBFirst segments (set_latchPin False s))) = False \<and>
   latchPin (writeToShiftRegister segments digit s) = True \<and>
   clockPin (writeToShiftRegister segments digit s) = False"
proof -
  have 1: "trace (writeToShiftRegister segments digit s) =
     trace s @ [Write LatchLine False] @ byte_events segments @ byte_events digit
             @ [Write LatchLine True]"
    by (simp add: writeToShiftRegister_eq frame_events_def)
  have 2: "trace (set_latchPin False s) = trace s @ [Write LatchLine False]"
    by (simp add: set_latchPin_def)
  have 3: "trace (shiftOutMSBFirst segments (set_latchPin False s))
     = trace s @ [Write LatchLine False] @ byte_events segments"
    by (simp add: shiftOutMSBFirst_eq set_latchPin_def)
  have 4: "trace (shiftOutMSBFirst digit (shiftOutMSBFirst segments (set_latchPin False s)))
     = trace s @ [Write LatchLine False] @ byte_events segments @ byte_events digit"
    by (simp add: shiftOutMSBFirst_eq set_latchPin_def)
  have 5: "writes_to LatchLine (frame_events segments digit) = [False, True]"
    by (simp add: frame_events_def writes_to_append latch_writes_byte)
  have "writes_to ClockLine (frame_events segments digit)
          = concat (replicate 8 [True, False]) @ concat (replicate 8 [True, False])"
    by (simp add: frame_events_def writes_to_append clock_writes_byte)
  also have "\<dots> = concat (replicate (8 + 8) [True, False])"
    by (simp only: replicate_add concat_append)
  finally have 6: "writes_to ClockLine (frame_events segments digit)
          = concat (replicate 16 [True, False])" by simp
  have 7: "writes_to DataLine (frame_events segments digit)
     = map (bit segments) [7, 6, 5, 4, 3, 2, 1, 0] @ map (bit digit) [7, 6, 5, 4, 3, 2, 1, 0]"
    by (simp add: frame_events_def writes_to_append data_writes_byte)
  have 8: "latchPin (shiftOutMSBFirst segments (set_latchPin False s)) = False"
    "latchPin (shiftOutMSBFirst digit (shiftOutMSBFirst segments (set_latchPin False s))) = False"
    by (simp_all add: shiftOutMSBFirst_eq set_latchPin_def)
  have 9: "latchPin (writeToShiftRegister segments digit s) = True"
    "clockPin (writeToShiftRegister segments digit s) = False"
    by (simp_all add: writeToShiftRegister_eq)
  from 1 2 3 4 5 6 7 8 9 show ?thesis by (intro conjI)
qed

section \<open>Digit encoder and display driver\<close>

lemma digitPattern_values:
  "digitPattern = [0xC0, 0xF9, 0xA4, 0xB0, 0x99, 0x92, 0x82, 0xF8, 0x80, 0x90]"
  by (simp add: digitPattern_def)

lemma digitPattern_active_low:
  "digitPattern = map (\<lambda>w. NOT w) [0x3F, 0x06, 0x5B, 0x4F, 0x66, 0x6D, 0x7D, 0x07, 0x7F, 0x6F]"
  by code_simp

lemma digitPattern_nth_active_low:
  assumes "0 \<le> d" "d \<le> 9"
  shows "digitPattern ! nat d
           = NOT ([0x3F, 0x06, 0x5B, 0x4F, 0x66, 0x6D, 0x7D, 0x07, 0x7F, 0x6F] ! nat d)"
proof -
  from assms
  have "nat d < length [0x3F, 0x06, 0x5B, 0x4F, 0x66, 0x6D, 0x7D, 0x07, 0x7F, 0x6F :: 8 word]"
    by simp
  then show ?thesis unfolding digitPattern_active_low by (rule nth_map)
qed

lemma clear_bit7: "word_of_int (uint (w :: 8 word) AND NOT (0x80 :: int)) = w AND 0x7F"
proof -
  have "word_of_int (uint w AND NOT (0x80 :: int))
          = (word_of_int (uint w) :: 8 word) AND word_of_int (NOT 0x80)"
    by (simp only: of_int_and_eq)
  also have "(word_of_int (uint w) :: 8 word) = w" by simp
  also have "(word_of_int (NOT 0x80) :: 8 word) = 0x7F" by code_simp
  finally show ?thesis .
qed

lemma clear_bit7_num: "word_of_int (uint (w :: 8 word) AND - 129) = w AND 0x7F"
  using clear_bit7 [of w] by simp

lemma bit_and_7F: "bit (w AND 0x7F :: 8 word) k \<longleftrightarrow> k < 7 \<and> bit w k"
proof -
  have m: "(mask 7 :: 8 word) = 0x7F" by (simp add: mask_eq_exp_minus_1)
  have "bit (w AND mask 7 :: 8 word) k \<longleftrightarrow> k < 7 \<and> bit w k"
    by (auto simp add: bit_simps)
  then show ?thesis unfolding m .
qed

lemma digitPattern_all_bit7: "list_all (\<lambda>w. bit w 7) digitPattern"
  by code_simp

lemma length_digitPattern: "length digitPattern = 10"
  by (simp add: digitPattern_def)

lemma digitPattern_bit7:
  assumes "0 \<le> d" "d \<le> 9"
  shows "bit (digitPattern ! nat d) 7"
proof -
  from assms have "nat d < length digitPattern" by (simp add: length_digitPattern)
  with digitPattern_all_bit7 show ?thesis by (simp only: list_all_length)
qed

lemma c_index_digitPattern:
  "0 \<le> d \<Longrightarrow> d \<le> 9 \<Longrightarrow> c_index digitPattern d = Some (digitPattern ! nat d)"
  by (simp add: c_index_def digitPattern_def)

lemma c_index_digitPos:
  "0 \<le> i \<Longrightarrow> i < 4 \<Longrightarrow> c_index digitPos i = Some (digitPos ! nat i)"
  by (simp add: c_index_def digitPos_def)

lemma segments_at_valid:
  assumes "c_index digits i = Some d" "0 \<le> d" "d \<le> 9"
  shows "segments_at digits sh dp i =
           Some (if sh \<and> i = dp then digitPattern ! nat d AND 0x7F else digitPattern ! nat d)"
  using assms by (simp add: segments_at_def c_index_digitPattern clear_bit7_num)

lemma display_round_valid:
  assumes "c_index digits i = Some d" "0 \<le> d" "d \<le> 9" "0 \<le> i" "i < 4"
  shows "display_round digits sh dp i s =
           Some (sleep_for 2 (writeToShiftRegister
             (if sh \<and> i = dp then digitPattern ! nat d AND 0x7F else digitPattern ! nat d)
             (digitPos ! nat i) s))"
  using assms by (simp add: display_round_def segments_at_valid c_index_digitPos)

lemma display_round_counters:
  "display_round digits sh dp i s = Some s' \<Longrightarrow> seconds s' = seconds s \<and> minutes s' = minutes s"
  by (auto simp add: display_round_def writeToShiftRegister_eq sleep_for_def
           split: option.splits)

lemma displayNumber_loop_counters:
  "displayNumber_loop digits sh dp i s = Some s' \<Longrightarrow>
   seconds s' = seconds s \<and> minutes s' = minutes s"
proof (induction digits sh dp i s rule: displayNumber_loop.induct)
  case (1 digits sh dp i s)
  show ?case
  proof (cases "i < 4")
    case True
    with "1.prems" obtain t where t: "display_round digits sh dp i s = Some t"
      and rest: "displayNumber_loop digits sh dp (i + 1) t = Some s'"
      by (subst (asm) displayNumber_loop.simps) (auto split: option.splits)
    from "1.IH" [OF True t rest] display_round_counters [OF t] show ?thesis by simp
  next
    case False
    with "1.prems" show ?thesis by (subst (asm) displayNumber_loop.simps) simp
  qed
qed

lemma displayNumber_counters:
  "displayNumber n sh dp s = Some s' \<Longrightarrow> seconds s' = seconds s \<and> minutes s' = minutes s"
  unfolding displayNumber_def by (rule displayNumber_loop_counters)

lemma c_index_digits:
  "length digits = 4 \<Longrightarrow> 0 \<le> i \<Longrightarrow> i < 4 \<Longrightarrow> c_index digits i = Some (digits ! nat i)"
  by (simp add: c_index_def)

lemma display_round_total:
  assumes "length digits = 4" "\<forall>d \<in> set digits. 0 \<le> d \<and> d \<le> 9" "0 \<le> i" "i < 4"
  shows "\<exists>t. display_round digits sh dp i s = Some t"
proof -
  from assms have "nat i < length digits" by simp
  then have "digits ! nat i \<in> set digits" by (rule nth_mem)
  with assms have "0 \<le> digits ! nat i" "digits ! nat i \<le> 9" by simp_all
  with assms show ?thesis
    by (simp add: display_round_valid [where d = "digits ! nat i"] c_index_digits)
qed

lemma displayNumber_loop_total:
  "length digits = 4 \<Longrightarrow> \<forall>d \<in> set digits. 0 \<le> d \<and> d \<le> 9 \<Longrightarrow> 0 \<le> i \<Longrightarrow>
   \<exists>s'. displayNumber_loop digits sh dp i s = Some s'"
proof (induction digits sh dp i s rule: displayNumber_loop.induct)
  case (1 digits sh dp i s)
  show ?case
  proof (cases "i < 4")
    case True
    from display_round_total [OF "1.prems"(1,2,3) True]
    obtain t where t: "display_round digits sh dp i s = Some t" by blast
    from "1.prems" have "0 \<le> i + 1" by simp
    from "1.IH" [OF True t "1.prems"(1,2) this]
    obtain s' where "displayNumber_loop digits sh dp (i + 1) t = Some s'" by blast
    with True t have "displayNumber_loop digits sh dp i s = Some s'"
      by (subst displayNumber_loop.simps) simp
    then show ?thesis by blast
  next
    case False
    then show ?thesis by (subst displayNumber_loop.simps) simp
  qed
qed

lemma length_digits_of: "length (digits_of n) = 4"
  by (simp add: digits_of_def)

lemma digit_range:
  assumes "0 \<le> n" "d \<in> set (digits_of n)"
  shows "0 \<le> d \<and> d \<le> 9"
proof -
  from assms have "d \<in> {n div 1000 mod 10, n div 100 mod 10, n div 10 mod 10, n mod 10}"
    by (simp add: digits_of_nonneg)
  moreover have "0 \<le> x mod 10 \<and> x mod 10 \<le> 9" for x :: int
    using pos_mod_bound [of 10 x] by simp
  ultimately show ?thesis by auto
qed

text \<open>The loop of \<^verbatim>\<open>displayNumber\<close> is four rounds, and on a non-negative number each
  of them puts one frame on the lines and sleeps.\<close>

lemma displayNumber_loop_unfold:
  "displayNumber_loop digits sh dp 0 s =
     Option.bind (display_round digits sh dp 0 s) (\<lambda>a.
     Option.bind (display_round digits sh dp 1 a) (\<lambda>b.
     Option.bind (display_round digits sh dp 2 b) (\<lambda>c.
     display_round digits sh dp 3 c)))"
proof -
  have step: "displayNumber_loop digits sh dp i t =
      Option.bind (display_round digits sh dp i t) (displayNumber_loop digits sh dp (i + 1))"
    if "i < 4" for i t
    using that by (subst displayNumber_loop.simps) (simp split: option.split)
  have stop: "displayNumber_loop digits sh dp 4 t = Some t" for t
    by (subst displayNumber_loop.simps) simp
  have "displayNumber_loop digits sh dp 3 = display_round digits sh dp 3"
    by (rule ext) (simp add: step [of 3] stop [abs_def])
  then show ?thesis
    by (simp add: step [of 0] step [of 1] step [of 2] cong: Option.bind_cong)
qed

lemma displayNumber_frames:
  assumes "0 \<le> n"
  shows "\<exists>s'. displayNumber n sh dp s = Some s' \<and>
           trace s' = trace s @ concat (map (\<lambda>i.
             frame_events
               (if sh \<and> i = dp then digitPattern ! nat (digits_of n ! nat i) AND 0x7F
                else digitPattern ! nat (digits_of n ! nat i))
               (digitPos ! nat i) @ [SleepMs 2]) [0, 1, 2, 3])"
proof -
  have rng: "0 \<le> digits_of n ! nat i \<and> digits_of n ! nat i \<le> 9" if "0 \<le> i" "i < 4" for i
  proof -
    from that have "nat i < length (digits_of n)" by (simp add: length_digits_of)
    then have "digits_of n ! nat i \<in> set (digits_of n)" by (rule nth_mem)
    with assms show ?thesis by (rule digit_range)
  qed
  have rd: "display_round (digits_of n) sh dp i t =
           Some (sleep_for 2 (writeToShiftRegister
             (if sh \<and> i = dp then digitPattern ! nat (digits_of n ! nat i) AND 0x7F
              else digitPattern ! nat (digits_of n ! nat i))
             (digitPos ! nat i) t))" if "0 \<le> i" "i < 4" for i t
    using that rng [OF that]
    by (intro display_round_valid c_index_digits length_digits_of) simp_all
  show ?thesis
    unfolding displayNumber_def displayNumber_loop_unfold
    by (simp add: rd sleep_for_def writeToShiftRegister_eq)
qed

text \<open>The display of 530 with the decimal point at index 1: the digits 0, 5, 3, 0, one
  frame each, the decimal point on the second only.\<close>

lemma displayNumber_530: "\<exists>s'. displayNumber 530 True 1 s = Some s' \<and>
  trace s' = trace s @ frame_events 0xC0 0x01 @ [SleepMs 2] @ frame_events 0x12 0x02 @ [SleepMs 2]
    @ frame_events 0xB0 0x04 @ [SleepMs 2] @ frame_events 0xC0 0x08 @ [SleepMs 2]"
proof -
  have d: "digits_of 530 = [0, 5, 3, 0]" by (simp add: digits_of_nonneg)
  have m: "(0x92 :: 8 word) AND 0x7F = 0x12" by code_simp
  show ?thesis
    using displayNumber_frames [of 530 True 1 s]
    by (simp add: d digitPattern_values digitPos_def m)
qed

text \<open>A negative number has a negative digit, and the read of the table with it is
  outside the table.\<close>

lemma displayNumber_negative: "displayNumber (- 5) sh dp s = None"
proof -
  have d: "digits_of (- 5) = [0, 0, 0, - 5]"
    by (simp add: digits_of_def signed_modulo_int_def signed_divide_int_def)
  have "display_round [0, 0, 0, - 5] sh dp 3 = (\<lambda>t. None)"
    by (rule ext) (simp add: display_round_def segments_at_def c_index_def)
  then show ?thesis
    unfolding displayNumber_def displayNumber_loop_unfold d by simp
qed

text \<open>
  Claim C4. For every digit value \<open>d\<close> from 0 to 9 found at position \<open>i\<close> of the digit
  array, the table holds the active-low mask of \<open>d\<close> (\<open>0xC0, 0xF9, 0xA4, 0xB0, 0x99, 0x92,
  0x82, 0xF8, 0x80, 0x90\<close>, the complements of the segment sets \<open>0x3F, 0x06, 0x5B, 0x4F,
  0x66, 0x6D, 0x7D, 0x07, 0x7F, 0x6F\<close>), and the byte handed to the shift register for position \<open>i\<close>
  has the seven segment bits of that mask; its bit 7, the decimal point, is clear exactly
  when the flag is set and \<open>i\<close> is the requested position. At every other position the
  mask goes out unchanged, with bit 7 set. That byte, followed by the select byte of
  position \<open>i\<close>, is the frame that the round of the loop puts on the lines.
\<close>

theorem segment_byte_per_position:
  assumes "0 \<le> d" and "d \<le> 9" and "c_index digits i = Some d"
  shows "c_index digitPattern d
           = Some ([0xC0, 0xF9, 0xA4, 0xB0, 0x99, 0x92, 0x82, 0xF8, 0x80, 0x90] ! nat d) \<and>
         digitPattern ! nat d
           = NOT ([0x3F, 0x06, 0x5B, 0x4F, 0x66, 0x6D, 0x7D, 0x07, 0x7F, 0x6F] ! nat d) \<and>
         (\<exists>segments.
            segments_at digits showDecimalPoint decimalPosition i = Some segments \<and>
            (\<forall>k < 7. bit segments k = bit (digitPattern ! nat d) k) \<and>
            (\<not> bit segments 7 \<longleftrightarrow> showDecimalPoint \<and> i = decimalPosition) \<and>
            (\<not> (showDecimalPoint \<and> i = decimalPosition) \<longrightarrow>
               segments = digitPattern ! nat d \<and> bit segments 7) \<and>
            (0 \<le> i \<and> i < 4 \<longrightarrow>
               display_round digits showDecimalPoint decimalPosition i s
                 = Some (sleep_for 2 (writeToShiftRegister segments (digitPos ! nat i) s)) \<and>
               (\<forall>s'. display_round digits showDecimalPoint decimalPosition i s = Some s' \<longrightarrow>
                  trace s' = trace s @ frame_events segments (digitPos ! nat i) @ [SleepMs 2])))"
proof -
  let ?table = "digitPattern ! nat d"
  let ?dot = "showDecimalPoint \<and> i = decimalPosition"
  let ?seg = "if ?dot then ?table AND 0x7F else ?table"
  have tab: "c_index digitPattern d
           = Some ([0xC0, 0xF9, 0xA4, 0xB0, 0x99, 0x92, 0x82, 0xF8, 0x80, 0x90] ! nat d)"
  proof -
    have v: "digitPattern ! nat d
               = [0xC0, 0xF9, 0xA4, 0xB0, 0x99, 0x92, 0x82, 0xF8, 0x80, 0x90] ! nat d"
      by (simp only: digitPattern_values)
    show ?thesis using c_index_digitPattern [OF assms(1,2)] unfolding v .
  qed
  have b7: "bit ?table 7" using assms(1,2) by (rule digitPattern_bit7)
  have sa: "segments_at digits showDecimalPoint decimalPosition i = Some ?seg"
    using assms(3,1,2) by (rule segments_at_valid)
  have low: "\<forall>k < 7. bit ?seg k = bit ?table k"
    by (simp add: bit_and_7F)
  have dp: "\<not> bit ?seg 7 \<longleftrightarrow> ?dot"
    using b7 by (simp add: bit_and_7F)
  have other: "\<not> ?dot \<longrightarrow> ?seg = ?table \<and> bit ?seg 7"
    using b7 by simp
  have emit: "0 \<le> i \<and> i < 4 \<longrightarrow>
               display_round digits showDecimalPoint decimalPosition i s
                 = Some (sleep_for 2 (writeToShiftRegister ?seg (digitPos ! nat i) s)) \<and>
               (\<forall>s'. display_round digits showDecimalPoint decimalPosition i s = Some s' \<longrightarrow>
                  trace s' = trace s @ frame_events ?seg (digitPos ! nat i) @ [SleepMs 2])"
  proof (intro impI, elim conjE)
    assume i: "0 \<le> i" "i < 4"
    have r: "display_round digits showDecimalPoint decimalPosition i s
                 = Some (sleep_for 2 (writeToShiftRegister ?seg (digitPos ! nat i) s))"
      using assms(3,1,2) i by (rule display_round_valid)
    moreover have "trace (sleep_for 2 (writeToShiftRegister ?seg (digitPos ! nat i) s))
        = trace s @ frame_events ?seg (digitPos ! nat i) @ [SleepMs 2]"
      by (simp add: sleep_for_def writeToShiftRegister_eq)
    ultimately show "display_round digits showDecimalPoint decimalPosition i s
                 = Some (sleep_for 2 (writeToShiftRegister ?seg (digitPos ! nat i) s)) \<and>
               (\<forall>s'. display_round digits showDecimalPoint decimalPosition i s = Some s' \<longrightarrow>
                  trace s' = trace s @ frame_events ?seg (digitPos ! nat i) @ [SleepMs 2])"
      by simp
  qed
  from sa low dp other emit
  have "\<exists>segments.
            segments_at digits showDecimalPoint decimalPosition i = Some segments \<and>
            (\<forall>k < 7. bit segments k = bit (digitPattern ! nat d) k) \<and>
            (\<not> bit segments 7 \<longleftrightarrow> showDecimalPoint \<and> i = decimalPosition) \<and>
            (\<not> (showDecimalPoint \<and> i = decimalPosition) \<longrightarrow>
               segments = digitPattern ! nat d \<and> bit segments 7) \<and>
            (0 \<le> i \<and> i < 4 \<longrightarrow>
               display_round digits showDecimalPoint decimalPosition i s
                 = Some (sleep_for 2 (writeToShiftRegister segments (digitPos ! nat i) s)) \<and>
               (\<forall>s'. display_round digits showDecimalPoint decimalPosition i s = Some s' \<longrightarrow>
                  trace s' = trace s @ frame_events segments (digitPos ! nat i) @ [SleepMs 2]))"
    by (intro exI [of _ ?seg] conjI)
  with tab digitPattern_nth_active_low [OF assms(1,2)] show ?thesis by (intro conjI)
qed

theorem segment_byte_per_position_witness:
  "(0::int) \<le> 5 \<and> (5::int) \<le> 9 \<and> c_index (digits_of 530) 1 = Some 5 \<and>
   c_index digitPattern 5 = Some 0x92 \<and>
   segments_at (digits_of 530) True 1 1 = Some 0x12 \<and>
   segments_at (digits_of 530) True 1 2 = Some 0xB0 \<and>
   \<not> bit (0x12 :: 8 word) 7"
proof -
  have h: "(0::int) \<le> 5" "(5::int) \<le> 9" by simp_all
  have c: "c_index (digits_of 530) 1 = Some 5" by (simp add: c_index_def digits_of_def)
  have t: "c_index digitPattern 5 = Some 0x92"
    using segment_byte_per_position [OF h c, of True 1 init_board] by simp
  have s1: "segments_at (digits_of 530) True 1 1 = Some 0x12"
    by code_simp
  have s2: "segments_at (digits_of 530) True 1 2 = Some 0xB0"
    by code_simp
  from segment_byte_per_position [OF h c, of True 1 init_board] s1
  have b: "\<not> bit (0x12 :: 8 word) 7" by auto
  from h c t s1 s2 b show ?thesis by (intro conjI)
qed

text \<open>
  Claim C9. For every non-negative \<open>n\<close>, each of the four digits extracted by
  \<^verbatim>\<open>displayNumber\<close> lies between 0 and 9, so every read of \<^verbatim>\<open>digitPattern\<close> is inside
  the table: no lookup, no round of the loop and no call of \<^verbatim>\<open>displayNumber\<close> takes
  the out-of-bounds branch.
\<close>

theorem digit_lookups_in_bounds:
  assumes "0 \<le> n"
  shows "(\<forall>d \<in> set (digits_of n). 0 \<le> d \<and> d \<le> 9 \<and> c_index digitPattern d \<noteq> None) \<and>
         (\<forall>i \<in> {0, 1, 2, 3}. segments_at (digits_of n) showDecimalPoint decimalPosition i \<noteq> None) \<and>
         displayNumber n showDecimalPoint decimalPosition s \<noteq> None"
proof (intro conjI ballI)
  fix d assume "d \<in> set (digits_of n)"
  with assms have r: "0 \<le> d \<and> d \<le> 9" by (rule digit_range)
  then show "0 \<le> d" "d \<le> 9" by simp_all
  from r show "c_index digitPattern d \<noteq> None" by (simp add: c_index_digitPattern)
next
  fix i :: int assume "i \<in> {0, 1, 2, 3}"
  then have i: "0 \<le> i" "i < 4" by auto
  then have "nat i < length (digits_of n)" by (simp add: length_digits_of)
  then have "digits_of n ! nat i \<in> set (digits_of n)" by (rule nth_mem)
  with assms have "0 \<le> digits_of n ! nat i \<and> digits_of n ! nat i \<le> 9" by (rule digit_range)
  with i show "segments_at (digits_of n) showDecimalPoint decimalPosition i \<noteq> None"
    by (simp add: segments_at_valid [where d = "digits_of n ! nat i"] c_index_digits length_digits_of)
next
  have "\<exists>s'. displayNumber_loop (digits_of n) showDecimalPoint decimalPosition 0 s = Some s'"
    using assms by (intro displayNumber_loop_total length_digits_of ballI digit_range) simp_all
  then show "displayNumber n showDecimalPoint decimalPosition s \<noteq> None"
    by (auto simp add: displayNumber_def)
qed

theorem digit_lookups_in_bounds_witness:
  "(0::int) \<le> 2147483647 \<and> digits_of 2147483647 = [3, 6, 4, 7] \<and>
   c_index digitPattern 7 \<noteq> None \<and>
   segments_at (digits_of 2147483647) True 0 3 \<noteq> None \<and>
   displayNumber 2147483647 True 0 init_board \<noteq> None"
proof -
  have h: "(0::int) \<le> 2147483647" by simp
  have v: "digits_of 2147483647 = [3, 6, 4, 7]" by (simp add: digits_of_def)
  have m: "(7::int) \<in> set (digits_of 2147483647)" by (simp add: v)
  have k: "(3::int) \<in> {0, 1, 2, 3}" by simp
  from digit_lookups_in_bounds [OF h, of True 0 init_board] m k h v
  show ?thesis by blast
qed


section \<open>Operations on the counters\<close>

lemma reset_establishes_inv: "time_inv (reset_if_pressed False s)"
  by (simp add: reset_if_pressed_def sleep_for_def time_inv_def)

lemma reset_preserves_inv: "time_inv s \<Longrightarrow> time_inv (reset_if_pressed s1 s)"
  by (simp add: reset_if_pressed_def sleep_for_def time_inv_def)

lemma displayNumber_preserves_inv:
  "time_inv s \<Longrightarrow> displayNumber n sh dp s = Some s' \<Longrightarrow> time_inv s'"
  using displayNumber_counters [of n sh dp s s'] by (simp add: time_inv_def)

lemma reachable_inv: "reachable s \<Longrightarrow> time_inv s"
proof (induction rule: reachable.induct)
  case start
  show ?case by (rule time_inv_init)
next
  case (tick s)
  from tick.IH show ?case by (rule updateTime_preserves_inv)
qed (simp_all add: time_inv_def set_latchPin_def set_clockPin_def set_dataPin_def sleep_for_def)

text \<open>Every operation of the program is a sequence of such steps.\<close>

lemma reachable_main_setup: "reachable s \<Longrightarrow> reachable (main_setup s)"
  unfolding main_setup_def
  by (intro reachable.drive_data reachable.drive_clock reachable.drive_latch)

lemma reachable_reset: "reachable s \<Longrightarrow> reachable (reset_if_pressed s1 s)"
  unfolding reset_if_pressed_def
  by (simp add: reachable.sleep reachable.store_seconds reachable.store_minutes)

lemma reachable_shiftOut_loop: "reachable s \<Longrightarrow> reachable (shiftOut_loop val i s)"
proof (induction val i s rule: shiftOut_loop.induct)
  case (1 val i s)
  show ?case
  proof (cases "0 \<le> i")
    case True
    let ?t = "set_clockPin False (set_clockPin True
                (set_dataPin ((uint val AND push_bit (nat i) 1) \<noteq> 0) s))"
    from "1.prems" have "reachable ?t"
      by (intro reachable.drive_clock reachable.drive_data)
    with True have "reachable (shiftOut_loop val (i - 1) ?t)" by (intro "1.IH") simp_all
    with True show ?thesis by (subst shiftOut_loop.simps) simp
  next
    case False
    with "1.prems" show ?thesis by (subst shiftOut_loop.simps) simp
  qed
qed

lemma reachable_writeToShiftRegister:
  "reachable s \<Longrightarrow> reachable (writeToShiftRegister segments digit s)"
  unfolding writeToShiftRegister_def shiftOutMSBFirst_def
  by (intro reachable.drive_latch reachable_shiftOut_loop)

lemma reachable_display_round:
  "reachable s \<Longrightarrow> display_round digits sh dp i s = Some t \<Longrightarrow> reachable t"
  by (auto simp add: display_round_def split: option.splits
           intro!: reachable.sleep reachable_writeToShiftRegister)

lemma reachable_displayNumber_loop:
  "reachable s \<Longrightarrow> displayNumber_loop digits sh dp i s = Some s' \<Longrightarrow> reachable s'"
proof (induction digits sh dp i s rule: displayNumber_loop.induct)
  case (1 digits sh dp i s)
  show ?case
  proof (cases "i < 4")
    case True
    with "1.prems"(2) obtain t where t: "display_round digits sh dp i s = Some t"
      and rest: "displayNumber_loop digits sh dp (i + 1) t = Some s'"
      by (subst (asm) displayNumber_loop.simps) (auto split: option.splits)
    from "1.prems"(1) t have "reachable t" by (rule reachable_display_round)
    with True t show ?thesis using rest by (intro "1.IH")
  next
    case False
    with "1.prems" show ?thesis by (subst (asm) displayNumber_loop.simps) simp
  qed
qed

lemma reachable_displayNumber:
  "reachable s \<Longrightarrow> displayNumber n sh dp s = Some s' \<Longrightarrow> reachable s'"
  unfolding displayNumber_def by (rule reachable_displayNumber_loop)

lemma loop_iteration_reachable:
  assumes "reachable s" "loop_iteration s1 s3 raw s = Some s'"
  shows "reachable s'"
proof -
  from assms(1) have r: "reachable (reset_if_pressed s1 s)" by (rule reachable_reset)
  from assms(2) obtain n sh dp where "displayNumber n sh dp (reset_if_pressed s1 s) = Some s'"
    by (auto simp add: loop_iteration_def Let_def split: if_splits Option.bind_splits)
  with r show ?thesis by (rule reachable_displayNumber)
qed

section \<open>The time display\<close>

lemma packed_time_digits:
  fixes m s :: int
  assumes "0 \<le> s" "s < 60" "0 \<le> m" "m < 100"
  shows "digits_of (m * 100 + s) = [m div 10, m mod 10, s div 10, s mod 10]"
proof -
  let ?v = "m * 100 + s"
  have v0: "0 \<le> ?v" using assms by simp
  have h: "?v div 100 = m"
  proof -
    have "?v div 100 = m + s div 100" by (rule div_mult_self3) simp
    with assms show ?thesis by simp
  qed
  have "?v div 1000 = ?v div 100 div 10" by (simp add: zdiv_zmult2_eq [symmetric])
  then have th: "?v div 1000 = m div 10" by (simp only: h)
  have "0 \<le> m div 10" using assms by (simp add: pos_imp_zdiv_nonneg_iff)
  moreover have "m div 10 \<le> 99 div 10" using assms by (intro zdiv_mono1) simp_all
  ultimately have d0: "m div 10 mod 10 = m div 10" by simp
  have e: "?v = (m * 10) * 10 + s" by simp
  then have "?v div 10 = (m * 10 * 10 + s) div 10" by (simp only:)
  also have "\<dots> = m * 10 + s div 10" by (rule div_mult_self3) simp
  finally have t: "?v div 10 = m * 10 + s div 10" .
  have "0 \<le> s div 10" using assms by (simp add: pos_imp_zdiv_nonneg_iff)
  moreover have "s div 10 \<le> 59 div 10" using assms by (intro zdiv_mono1) simp_all
  ultimately have "s div 10 mod 10 = s div 10" by simp
  moreover have "(m * 10 + s div 10) mod 10 = s div 10 mod 10" by (rule mod_mult_self3)
  ultimately have d2: "?v div 10 mod 10 = s div 10" by (simp only: t)
  from e have "?v mod 10 = (m * 10 * 10 + s) mod 10" by (simp only:)
  also have "\<dots> = s mod 10" by (rule mod_mult_self3)
  finally have d3: "?v mod 10 = s mod 10" .
  have "digits_of ?v = [?v div 1000 mod 10, ?v div 100 mod 10, ?v div 10 mod 10, ?v mod 10]"
    using v0 by (rule digits_of_nonneg)
  then show ?thesis by (simp only: th d0 h d2 d3)
qed

lemma timeValue_of_inv:
  assumes "time_inv s"
  shows "timeValue_of s = minutes s * 100 + seconds s"
    and "0 \<le> timeValue_of s" and "timeValue_of s \<le> 9959"
proof -
  from assms have r: "0 \<le> seconds s" "seconds s < 60" "0 \<le> minutes s" "minutes s < 100"
    by (simp_all add: time_inv_def)
  then have m: "wrap32 (minutes s * 100) = minutes s * 100" by (intro wrap32_id) simp_all
  from r have "wrap32 (minutes s * 100 + seconds s) = minutes s * 100 + seconds s"
    by (intro wrap32_id) simp_all
  with m show v: "timeValue_of s = minutes s * 100 + seconds s"
    by (simp only: timeValue_of_def)
  from r show "0 \<le> timeValue_of s" unfolding v by simp
  from r show "timeValue_of s \<le> 9959" unfolding v by simp
qed

text \<open>
  Claim C10. Under the counter invariant the value packed by the time branch of the main
  loop is \<open>minutes * 100 + seconds\<close> without wrap-around and lies between 0 and 9959.
  So \<^verbatim>\<open>displayNumber\<close> drops nothing of it: the value is its own remainder modulo 10000,
  its four digits are the two digits of the minutes followed by the two of the seconds,
  and they recompose to the value. The pass of the loop with the voltage button released
  is the call of \<^verbatim>\<open>displayNumber\<close> on that value with the decimal point at index 1, and
  it never reads outside the pattern table.
\<close>

theorem time_display_within_range:
  assumes "time_inv s"
  shows "timeValue_of s = minutes s * 100 + seconds s \<and>
         0 \<le> timeValue_of s \<and> timeValue_of s \<le> 9959 \<and>
         timeValue_of s mod 10000 = timeValue_of s \<and>
         digits_of (timeValue_of s)
           = [minutes s div 10, minutes s mod 10, seconds s div 10, seconds s mod 10] \<and>
         digits_of (timeValue_of s) ! 0 * 1000 + digits_of (timeValue_of s) ! 1 * 100 +
           digits_of (timeValue_of s) ! 2 * 10 + digits_of (timeValue_of s) ! 3
           = timeValue_of s \<and>
         (\<forall>raw. loop_iteration True True raw s
                  = displayNumber (minutes s * 100 + seconds s) True 1 s) \<and>
         (\<forall>raw. loop_iteration False True raw s
                  = displayNumber 0 True 1 (reset_if_pressed False s)) \<and>
         (\<forall>s1 raw. loop_iteration s1 True raw s \<noteq> None)"
proof -
  from assms have r: "0 \<le> seconds s" "seconds s < 60" "0 \<le> minutes s" "minutes s < 100"
    by (simp_all add: time_inv_def)
  note tv = timeValue_of_inv [OF assms]
  have md: "timeValue_of s mod 10000 = timeValue_of s"
    using tv(2,3) by simp
  have dg: "digits_of (timeValue_of s)
           = [minutes s div 10, minutes s mod 10, seconds s div 10, seconds s mod 10]"
    unfolding tv(1) using r by (rule packed_time_digits)
  have "timeValue_of s \<le> 9999" using tv(3) by simp
  with tv(2) have rc: "digits_of (timeValue_of s) ! 0 * 1000 + digits_of (timeValue_of s) ! 1 * 100 +
           digits_of (timeValue_of s) ! 2 * 10 + digits_of (timeValue_of s) ! 3
           = timeValue_of s" by (rule digits_recompose)
  have l1: "\<forall>raw. loop_iteration True True raw s
                  = displayNumber (minutes s * 100 + seconds s) True 1 s"
    by (simp add: loop_iteration_def reset_if_pressed_def tv(1))
  have "timeValue_of (reset_if_pressed False s) = 0"
    by (simp add: timeValue_of_def reset_if_pressed_def sleep_for_def wrap32_def)
  then have l2: "\<forall>raw. loop_iteration False True raw s
                  = displayNumber 0 True 1 (reset_if_pressed False s)"
    by (simp add: loop_iteration_def)
  have l3: "\<forall>s1 raw. loop_iteration s1 True raw s \<noteq> None"
  proof (intro allI)
    fix s1 raw
    let ?s' = "reset_if_pressed s1 s"
    from assms have "time_inv ?s'" by (rule reset_preserves_inv)
    then have "0 \<le> timeValue_of ?s'" by (rule timeValue_of_inv(2))
    then obtain t where "displayNumber (timeValue_of ?s') True 1 ?s' = Some t"
      using displayNumber_frames [of "timeValue_of ?s'" True 1 ?s'] by blast
    then show "loop_iteration s1 True raw s \<noteq> None"
      by (simp add: loop_iteration_def)
  qed
  from tv md dg rc l1 l2 l3 show ?thesis by (intro conjI)
qed

theorem time_display_within_range_witness:
  "time_inv (init_board\<lparr>seconds := 59, minutes := 99\<rparr>) \<and>
   timeValue_of (init_board\<lparr>seconds := 59, minutes := 99\<rparr>) = 9959 \<and>
   digits_of (timeValue_of (init_board\<lparr>seconds := 59, minutes := 99\<rparr>)) = [9, 9, 5, 9] \<and>
   loop_iteration True True 0 (init_board\<lparr>seconds := 59, minutes := 99\<rparr>)
     = displayNumber 9959 True 1 (init_board\<lparr>seconds := 59, minutes := 99\<rparr>)"
proof -
  let ?s = "init_board\<lparr>seconds := 59, minutes := 99\<rparr>"
  have i: "time_inv ?s" by (simp add: time_inv_def init_board_def)
  have f: "seconds ?s = 59" "minutes ?s = 99" by simp_all
  note t = time_display_within_range [OF i, unfolded f]
  note c2 = conjunct2
  have v: "timeValue_of ?s = 9959"
    using t [THEN conjunct1] by simp
  have d: "digits_of (timeValue_of ?s) = [9, 9, 5, 9]"
    using t [THEN c2, THEN c2, THEN c2, THEN c2, THEN conjunct1] by simp
  have l: "loop_iteration True True 0 ?s = displayNumber 9959 True 1 ?s"
    using t [THEN c2, THEN c2, THEN c2, THEN c2, THEN c2, THEN c2, THEN conjunct1, THEN spec, of 0]
    by simp
  from i v d l show ?thesis by (intro conjI)
qed

section \<open>The voltage branch\<close>

lemma f32_exponent_eq:
  assumes "2 powi e \<le> a" and "a < 2 powi (e + 1)" and "- 126 \<le> e" and "e \<le> int k - 126"
  shows "f32_exponent k a = e"
  using assms(4)
proof (induction k)
  case 0
  with assms(3) show ?case by simp
next
  case (Suc k)
  show ?case
  proof (cases "(2::real) powi (int (Suc k) - 126) \<le> a")
    case True
    from True assms(2) have "(2::real) powi (int (Suc k) - 126) < 2 powi (e + 1)"
      by (rule le_less_trans)
    have "int (Suc k) - 126 < e + 1"
    proof (rule ccontr)
      assume "\<not> int (Suc k) - 126 < e + 1"
      then have "e + 1 \<le> int (Suc k) - 126" by simp
      then have "(2::real) powi (e + 1) \<le> 2 powi (int (Suc k) - 126)"
        by (rule power_int_increasing) simp
      with \<open>(2::real) powi (int (Suc k) - 126) < 2 powi (e + 1)\<close> show False by simp
    qed
    with Suc.prems have "int (Suc k) - 126 = e" by simp
    with True show ?thesis by simp
  next
    case False
    have "e \<noteq> int (Suc k) - 126" using False assms(1) by auto
    with Suc.prems have "e \<le> int k - 126" by simp
    then have "f32_exponent k a = e" by (rule Suc.IH)
    with False show ?thesis by simp
  qed
qed

lemma f32_round_normal:
  assumes "2 powi e \<le> \<bar>x\<bar>" and "\<bar>x\<bar> < 2 powi (e + 1)" and "- 126 \<le> e" and "e \<le> 127"
  shows "f32_round x =
           (let y = of_int (round_half_even (\<bar>x\<bar> / 2 powi (e - 23))) * 2 powi (e - 23)
            in if 2 ^ 128 \<le> y then None else Some (sgn x * y))"
proof -
  have "f32_exponent 253 \<bar>x\<bar> = e"
    using assms by (intro f32_exponent_eq) simp_all
  then show ?thesis by (simp add: f32_round_def Let_def)
qed

lemma f32_sample: "f32_round 32768 = Some 32768"
  by (simp add: f32_round_normal [where e = 15] round_half_even_def)

lemma f32_full_scale: "f32_round 65535 = Some 65535"
  by (simp add: f32_round_normal [where e = 15] round_half_even_def)

lemma f32_ratio: "f32_round (32768 / 65535) = Some (8388736 / 2 ^ 24)"
  by (simp add: f32_round_normal [where e = "- 1"] round_half_even_def)

lemma f32_reference: "f32_round (33 / 10) = Some (13841203 / 2 ^ 22)"
  by (simp add: f32_round_normal [where e = 1] round_half_even_def)

lemma f32_volts: "f32_round (8388736 / 2 ^ 24 * (13841203 / 2 ^ 22)) = Some (6920707 / 2 ^ 22)"
  by (simp add: f32_round_normal [where e = 0] round_half_even_def)

lemma f32_thousand: "f32_round 1000 = Some 1000"
  by (simp add: f32_round_normal [where e = 9] round_half_even_def)

lemma f32_millivolts: "f32_round (6920707 / 2 ^ 22 * 1000) = Some (6758503 / 2 ^ 12)"
  by (simp add: f32_round_normal [where e = 10] round_half_even_def)

lemma int_millivolts: "float_to_int (6758503 / 2 ^ 12) = Some 1650"
  by (simp add: float_to_int_def)

lemma voltage_of_half: "voltage_of 32768 = Some (6920707 / 2 ^ 22)"
proof -
  have u: "real_of_int (uint (32768 :: 16 word)) = 32768" by simp
  show ?thesis
    by (simp only: voltage_of_def u f32_sample f32_full_scale f32_ratio f32_reference f32_volts
          Option.bind.bind_lunit)
qed

lemma voltageValue_of_half: "voltageValue_of (6920707 / 2 ^ 22) = Some 1650"
  by (simp only: voltageValue_of_def f32_thousand f32_millivolts int_millivolts
        Option.bind.bind_lunit)

text \<open>
  Claim C7. For the raw sample 32768 the voltage branch computes the \<^verbatim>\<open>float\<close>
  \<open>6920707 / 2^22\<close>, about 1.650025 and within 0.0001 of 1.65; the display value
  converted from it is 1650; and the pass of the loop with the voltage button pressed is
  the call of \<^verbatim>\<open>displayNumber\<close> on 1650 with the decimal point at index 0. The digits
  are 1, 6, 5, 0 and only the byte of the first has bit 7 clear.
\<close>

theorem voltage_branch_at_half_scale:
  "voltage_of 32768 = Some (6920707 / 2 ^ 22) \<and>
   \<bar>6920707 / 2 ^ 22 - 165 / 100\<bar> < (1 / 10000 :: real) \<and>
   voltageValue_of (6920707 / 2 ^ 22) = Some 1650 \<and>
   (\<forall>s1 s. loop_iteration s1 False 32768 s
              = displayNumber 1650 True 0 (reset_if_pressed s1 s)) \<and>
   digits_of 1650 = [1, 6, 5, 0] \<and>
   segments_at (digits_of 1650) True 0 0 = Some 0x79 \<and>
   segments_at (digits_of 1650) True 0 1 = Some 0x82 \<and>
   segments_at (digits_of 1650) True 0 2 = Some 0x92 \<and>
   segments_at (digits_of 1650) True 0 3 = Some 0xC0"
proof -
  have a: "\<bar>6920707 / 2 ^ 22 - 165 / 100\<bar> < (1 / 10000 :: real)" by simp
  have l: "\<forall>s1 s. loop_iteration s1 False 32768 s
              = displayNumber 1650 True 0 (reset_if_pressed s1 s)"
    by (simp only: loop_iteration_def Let_def voltage_of_half voltageValue_of_half
          Option.bind.bind_lunit simp_thms if_True)
  have d: "digits_of 1650 = [1, 6, 5, 0]" by (simp add: digits_of_nonneg)
  have s0: "segments_at (digits_of 1650) True 0 0 = Some 0x79" by code_simp
  have s1: "segments_at (digits_of 1650) True 0 1 = Some 0x82" by code_simp
  have s2: "segments_at (digits_of 1650) True 0 2 = Some 0x92" by code_simp
  have s3: "segments_at (digits_of 1650) True 0 3 = Some 0xC0" by code_simp
  from voltage_of_half a voltageValue_of_half l d s0 s1 s2 s3 show ?thesis by (intro conjI)
qed

text \<open>For every sample the branch stays within the finite \<^verbatim>\<open>float\<close> values and the
  range of \<^verbatim>\<open>int\<close>, and the display value is not negative: rounding a non-negative \<open>x\<close>
  gives at most \<open>x\<close> plus half a unit in the last place.\<close>

lemma f32_exponent_lower: "- 126 \<le> f32_exponent k a"
  by (induction k) simp_all

lemma f32_exponent_upper: "f32_exponent k a \<le> int k - 126"
  by (induction k) auto

lemma f32_exponent_le: "f32_exponent k a \<noteq> - 126 \<Longrightarrow> 2 powi (f32_exponent k a) \<le> a"
  by (induction k) (simp_all split: if_splits)

lemma round_half_even_cases:
  "round_half_even q = \<lfloor>q\<rfloor> \<and> q - of_int \<lfloor>q\<rfloor> \<le> 1 / 2 \<or>
   round_half_even q = \<lfloor>q\<rfloor> + 1 \<and> 1 / 2 \<le> q - of_int \<lfloor>q\<rfloor>"
  unfolding round_half_even_def Let_def by (simp only: split: if_split) linarith

lemma round_half_even_upper: "real_of_int (round_half_even q) \<le> q + 1 / 2"
proof -
  have f: "real_of_int \<lfloor>q\<rfloor> \<le> q" by (rule of_int_floor_le)
  from round_half_even_cases [of q] show ?thesis
  proof
    assume "round_half_even q = \<lfloor>q\<rfloor> \<and> q - of_int \<lfloor>q\<rfloor> \<le> 1 / 2"
    then have "real_of_int (round_half_even q) = real_of_int \<lfloor>q\<rfloor>" by simp
    with f show ?thesis by linarith
  next
    assume a: "round_half_even q = \<lfloor>q\<rfloor> + 1 \<and> 1 / 2 \<le> q - of_int \<lfloor>q\<rfloor>"
    then have "real_of_int (round_half_even q) = real_of_int \<lfloor>q\<rfloor> + 1" by simp
    with a show ?thesis by linarith
  qed
qed

lemma round_half_even_nonneg: "0 \<le> q \<Longrightarrow> 0 \<le> round_half_even q"
  by (auto simp add: round_half_even_def Let_def)

lemma f32_round_bound:
  assumes "0 \<le> x" and "x \<le> 2 ^ 100"
  shows "\<exists>y. f32_round x = Some y \<and> 0 \<le> y \<and> y \<le> 2 * x + 1"
proof -
  define e where "e = f32_exponent 253 x"
  define ulp :: real where "ulp = 2 powi (e - 23)"
  define y where "y = real_of_int (round_half_even (x / ulp)) * ulp"
  have ulp_pos: "0 < ulp" unfolding ulp_def by (simp add: zero_less_power_int)
  have ulp_le: "ulp \<le> x + 1"
  proof (cases "e = - 126")
    case True
    then have "ulp = 2 powi (- 149)" by (simp add: ulp_def)
    also have "\<dots> \<le> 1" by (simp add: power_int_minus_divide)
    finally show ?thesis using assms(1) by simp
  next
    case False
    then have "2 powi e \<le> x" unfolding e_def by (rule f32_exponent_le)
    moreover have "ulp \<le> 2 powi e" unfolding ulp_def by (rule power_int_increasing) simp_all
    ultimately show ?thesis by simp
  qed
  have y0: "0 \<le> y"
    unfolding y_def using assms(1) ulp_pos by (simp add: round_half_even_nonneg)
  have "y \<le> (x / ulp + 1 / 2) * ulp"
    unfolding y_def using ulp_pos by (intro mult_right_mono round_half_even_upper) simp
  also have "\<dots> = x + ulp / 2" using ulp_pos by (simp add: field_simps)
  finally have y1: "y \<le> x + ulp / 2" .
  with ulp_le assms(1) have y2: "y \<le> 2 * x + 1" by simp
  have "2 * x + 1 \<le> 2 * 2 ^ 100 + (1::real)" using assms(2) by simp
  also have "\<dots> < 2 ^ 128" by simp
  finally have "\<not> 2 ^ 128 \<le> y" using y2 by simp
  then have r: "f32_round x = Some (sgn x * y)"
    using assms(1) by (simp add: f32_round_def Let_def e_def ulp_def y_def)
  have "0 \<le> sgn x * y" "sgn x * y \<le> y"
    using assms(1) y0 by (simp_all add: sgn_if)
  with r y2 show ?thesis by auto
qed

lemma float_to_int_nonneg:
  assumes "0 \<le> p" and "p \<le> 2 ^ 30"
  shows "\<exists>n. float_to_int p = Some n \<and> 0 \<le> n"
proof -
  have "\<lfloor>p\<rfloor> \<le> \<lfloor>2 ^ 30 :: real\<rfloor>" using assms(2) by (rule floor_mono)
  then have "\<lfloor>p\<rfloor> < 2 ^ 31" by simp
  moreover have "0 \<le> \<lfloor>p\<rfloor>" using assms(1) by simp
  ultimately show ?thesis using assms(1) by (simp add: float_to_int_def)
qed

lemma voltage_branch_total:
  "\<exists>v n. voltage_of raw = Some v \<and> 0 \<le> v \<and> voltageValue_of v = Some n \<and> 0 \<le> n"
proof -
  have raw: "0 \<le> real_of_int (uint raw)" "real_of_int (uint raw) \<le> 65535"
  proof -
    show "0 \<le> real_of_int (uint raw)" by (rule of_int_nonneg) simp
    have "uint raw < 2 ^ 16" using uint_bounded [of raw] by simp
    then have "uint raw \<le> 65535" by simp
    then have "real_of_int (uint raw) \<le> real_of_int 65535" by (rule of_int_le_iff [THEN iffD2])
    then show "real_of_int (uint raw) \<le> 65535" by (simp only: of_int_numeral)
  qed
  from raw obtain r where r: "f32_round (real_of_int (uint raw)) = Some r" "0 \<le> r" "r \<le> 131071"
    using f32_round_bound [of "real_of_int (uint raw)"] by auto
  have "r / 65535 \<le> 131071 / 65535" using r(3) by (simp add: divide_right_mono)
  with r(2) obtain q where q: "f32_round (r / 65535) = Some q" "0 \<le> q" "q \<le> 6"
    using f32_round_bound [of "r / 65535"] by auto
  have "q * (13841203 / 2 ^ 22) \<le> 6 * (13841203 / 2 ^ 22)"
    using q(3) by (intro mult_right_mono) simp_all
  with q(2) obtain v where v: "f32_round (q * (13841203 / 2 ^ 22)) = Some v" "0 \<le> v" "v \<le> 41"
    using f32_round_bound [of "q * (13841203 / 2 ^ 22)"] by auto
  have "v * 1000 \<le> 41 * 1000" using v(3) by (intro mult_right_mono) simp_all
  with v(2) obtain p where p: "f32_round (v * 1000) = Some p" "0 \<le> p" "p \<le> 82001"
    using f32_round_bound [of "v * 1000"] by auto
  from p(2,3) obtain n where n: "float_to_int p = Some n" "0 \<le> n"
    using float_to_int_nonneg [of p] by auto
  have "voltage_of raw = Some v"
    by (simp only: voltage_of_def r(1) f32_full_scale q(1) f32_reference v(1)
          Option.bind.bind_lunit)
  moreover have "voltageValue_of v = Some n"
    by (simp only: voltageValue_of_def f32_thousand p(1) n(1) Option.bind.bind_lunit)
  ultimately show ?thesis using v(2) n(2) by blast
qed

section \<open>The main loop and the counter invariant\<close>

lemma loop_iteration_total:
  assumes "time_inv s"
  shows "\<exists>s'. loop_iteration s1 s3 raw s = Some s'"
proof -
  let ?s' = "reset_if_pressed s1 s"
  show ?thesis
  proof (cases s3)
    case True
    from assms have "time_inv ?s'" by (rule reset_preserves_inv)
    then have "0 \<le> timeValue_of ?s'" by (rule timeValue_of_inv(2))
    then obtain t where "displayNumber (timeValue_of ?s') True 1 ?s' = Some t"
      using displayNumber_frames [of "timeValue_of ?s'" True 1 ?s'] by blast
    with True show ?thesis by (simp add: loop_iteration_def)
  next
    case False
    obtain v n where vn: "voltage_of raw = Some v" "voltageValue_of v = Some n" "0 \<le> n"
      using voltage_branch_total [of raw] by blast
    from vn(3) obtain t where "displayNumber n True 0 ?s' = Some t"
      using displayNumber_frames [of n True 0 ?s'] by blast
    with False vn show ?thesis by (simp add: loop_iteration_def)
  qed
qed

text \<open>
  Claim C6. The invariant \<open>0 \<le> seconds < 60\<close> and \<open>0 \<le> minutes < 100\<close> holds when
  \<^verbatim>\<open>main\<close> is entered and when its loop is. It is preserved by each call of the tick
  handler, by the reset-button action (which establishes it from any state when the
  button is pressed) and by a whole pass of the main loop, which on a state with the
  invariant always runs to its end. The states that these operations produce from the
  initial one are reachable, and the invariant holds in every reachable state: also when
  the tick handler runs in the middle of one of the operations of the main loop.
\<close>

theorem time_inv_maintained:
  "time_inv init_board \<and>
   time_inv (main_setup init_board) \<and>
   (\<forall>s. time_inv s \<longrightarrow> time_inv (updateTime s)) \<and>
   (\<forall>s. time_inv (reset_if_pressed False s)) \<and>
   (\<forall>s s1. time_inv s \<longrightarrow> time_inv (reset_if_pressed s1 s)) \<and>
   (\<forall>s s1 s3 raw. time_inv s \<longrightarrow> (\<exists>s'. loop_iteration s1 s3 raw s = Some s')) \<and>
   (\<forall>s s1 s3 raw s'. time_inv s \<longrightarrow> loop_iteration s1 s3 raw s = Some s' \<longrightarrow> time_inv s') \<and>
   reachable (main_setup init_board) \<and>
   (\<forall>s. reachable s \<longrightarrow> reachable (updateTime s)) \<and>
   (\<forall>s s1. reachable s \<longrightarrow> reachable (reset_if_pressed s1 s)) \<and>
   (\<forall>s s1 s3 raw s'. reachable s \<longrightarrow> loop_iteration s1 s3 raw s = Some s' \<longrightarrow> reachable s') \<and>
   (\<forall>s. reachable s \<longrightarrow> time_inv s)"
proof -
  have loop: "time_inv s'" if "time_inv s" "loop_iteration s1 s3 raw s = Some s'"
    for s s1 s3 raw s'
  proof -
    from that(1) have r: "time_inv (reset_if_pressed s1 s)" by (rule reset_preserves_inv)
    from that(2) obtain n sh dp where "displayNumber n sh dp (reset_if_pressed s1 s) = Some s'"
      by (auto simp add: loop_iteration_def Let_def split: if_splits Option.bind_splits)
    with r show ?thesis by (rule displayNumber_preserves_inv)
  qed
  have entered: "reachable (main_setup init_board)"
    by (intro reachable_main_setup reachable.start)
  have inv: "time_inv init_board \<and>
   time_inv (main_setup init_board) \<and>
   (\<forall>s. time_inv s \<longrightarrow> time_inv (updateTime s)) \<and>
   (\<forall>s. time_inv (reset_if_pressed False s)) \<and>
   (\<forall>s s1. time_inv s \<longrightarrow> time_inv (reset_if_pressed s1 s)) \<and>
   (\<forall>s s1 s3 raw. time_inv s \<longrightarrow> (\<exists>s'. loop_iteration s1 s3 raw s = Some s')) \<and>
   (\<forall>s s1 s3 raw s'. time_inv s \<longrightarrow> loop_iteration s1 s3 raw s = Some s' \<longrightarrow> time_inv s')"
    using time_inv_init time_inv_setup updateTime_preserves_inv reset_establishes_inv
      reset_preserves_inv loop_iteration_total loop
    by blast
  have reach: "reachable (main_setup init_board) \<and>
   (\<forall>s. reachable s \<longrightarrow> reachable (updateTime s)) \<and>
   (\<forall>s s1. reachable s \<longrightarrow> reachable (reset_if_pressed s1 s)) \<and>
   (\<forall>s s1 s3 raw s'. reachable s \<longrightarrow> loop_iteration s1 s3 raw s = Some s' \<longrightarrow> reachable s') \<and>
   (\<forall>s. reachable s \<longrightarrow> time_inv s)"
    using entered reachable.tick reachable_reset loop_iteration_reachable reachable_inv
    by blast
  from inv reach show ?thesis by (elim conjE) (intro conjI; assumption)
qed

theorem time_inv_maintained_witness:
  "reachable (reset_if_pressed False (updateTime (main_setup init_board))) \<and>
   time_inv (reset_if_pressed False (updateTime (main_setup init_board))) \<and>
   seconds (reset_if_pressed False (updateTime (main_setup init_board))) = 0 \<and>
   reachable (updateTime (ticks 59 (main_setup init_board))) \<and>
   time_inv (updateTime (ticks 59 (main_setup init_board))) \<and>
   seconds (updateTime (ticks 59 (main_setup init_board))) = 0 \<and>
   minutes (updateTime (ticks 59 (main_setup init_board))) = 1 \<and>
   reachable (updateTime ((ticks 59 (main_setup init_board))\<lparr>minutes := 0\<rparr>)\<lparr>seconds := 0\<rparr>) \<and>
   time_inv (updateTime ((ticks 59 (main_setup init_board))\<lparr>minutes := 0\<rparr>)\<lparr>seconds := 0\<rparr>) \<and>
   minutes (updateTime ((ticks 59 (main_setup init_board))\<lparr>minutes := 0\<rparr>)\<lparr>seconds := 0\<rparr>) = 1"
proof -
  let ?start = "main_setup init_board"
  note c2 = conjunct2
  note t = time_inv_maintained
  note t_setup = t [THEN c2, THEN c2, THEN c2, THEN c2, THEN c2, THEN c2, THEN c2, THEN conjunct1]
  note t_tick = t [THEN c2, THEN c2, THEN c2, THEN c2, THEN c2, THEN c2, THEN c2, THEN c2,
    THEN conjunct1, rule_format]
  note t_reset = t [THEN c2, THEN c2, THEN c2, THEN c2, THEN c2, THEN c2, THEN c2, THEN c2,
    THEN c2, THEN conjunct1, rule_format]
  note t_inv = t [THEN c2, THEN c2, THEN c2, THEN c2, THEN c2, THEN c2, THEN c2, THEN c2,
    THEN c2, THEN c2, THEN c2, rule_format]
  have c: "seconds ?start = 0" "minutes ?start = 0"
    by (simp_all add: init_board_def main_setup_def
          set_latchPin_def set_clockPin_def set_dataPin_def)
  have r1: "reachable (reset_if_pressed False (updateTime ?start))"
    by (intro t_reset t_tick t_setup)
  have tk: "reachable (ticks n s)" if "reachable s" for n s
    using that by (induction n arbitrary: s) (simp_all add: t_tick)
  have r59: "reachable (ticks 59 ?start)" by (intro tk t_setup)
  then have r2: "reachable (updateTime (ticks 59 ?start))" by (rule t_tick)
  have t59: "ticks 59 ?start = ?start\<lparr>seconds := 59, minutes := 0\<rparr>"
    using ticks_closed_form [OF time_inv_setup, of 59] by (simp add: c)
  have i59: "time_inv (?start\<lparr>seconds := 59, minutes := 0\<rparr>)"
    by (simp add: time_inv_def)
  then have v: "seconds (updateTime (ticks 59 ?start)) = 0"
    "minutes (updateTime (ticks 59 ?start)) = 1"
    unfolding t59 by (simp_all add: updateTime_inv_step)
  from r1 have i1: "time_inv (reset_if_pressed False (updateTime ?start))" by (rule t_inv)
  from r2 have i2: "time_inv (updateTime (ticks 59 ?start))" by (rule t_inv)
  have z: "seconds (reset_if_pressed False (updateTime ?start)) = 0"
    by (simp add: reset_if_pressed_def sleep_for_def)
  let ?torn = "updateTime ((ticks 59 ?start)\<lparr>minutes := 0\<rparr>)\<lparr>seconds := 0\<rparr>"
  from r59 have r3: "reachable ?torn"
    by (intro reachable.store_seconds t_tick reachable.store_minutes)
  then have i3: "time_inv ?torn" by (rule t_inv)
  have m3: "minutes ?torn = 1"
    unfolding t59 using i59 by (simp add: updateTime_inv_step time_inv_def)
  from r1 i1 z r2 i2 v r3 i3 m3 show ?thesis by (intro conjI)
qed

end
